theory Spec2Isabelle
  imports Main "HOL-Library.Word" "HOL-Library.Sublist"
begin

section \<open>The operating system underneath the disk manager\<close>

text \<open>
  \<^verbatim>\<open>disk_manager.cpp\<close> reaches the files through the POSIX calls \<^verbatim>\<open>stat\<close>,
  \<^verbatim>\<open>open\<close>, \<^verbatim>\<open>close\<close>, \<^verbatim>\<open>lseek\<close>, \<^verbatim>\<open>read\<close> and \<^verbatim>\<open>write\<close>. They are modelled
  as functions on an explicit kernel state: the directory tree as a map from paths to
  inodes, and the process's descriptor table as a list indexed by descriptor, each
  open entry holding the path it was opened on and its file position.

  A C++ \<^verbatim>\<open>int\<close> is a mathematical integer in the range of 32 bits; where the source
  computes in \<^verbatim>\<open>int\<close> or narrows a wider value to \<^verbatim>\<open>int\<close>, the model wraps the result
  around in two's complement (\<open>as_int\<close>), which is what the compiled code does on
  overflow. A \<^verbatim>\<open>char\<close> is an 8-bit word.
\<close>

type_synonym byte = "8 word"

datatype inode =
    Regular bool "byte list"   \<comment> \<open>a regular file: may the process open it read/write, and its bytes\<close>
  | NonRegular nat             \<comment> \<open>a directory or special file, with its \<^verbatim>\<open>st_size\<close>\<close>

record os_state =
  files :: "string \<rightharpoonup> inode"
  fdtab :: "(string \<times> nat) option list"
  fd_limit :: nat

text \<open>
  How much of a requested transfer the kernel performs in one \<^verbatim>\<open>read\<close> or \<^verbatim>\<open>write\<close> is
  the environment's choice (a full disk, a signal, a quota): all of it, at most \<open>k\<close>
  bytes, or none with an error return.
\<close>

datatype io_outcome = Complete | Partial nat | OSFail

fun granted :: "io_outcome \<Rightarrow> nat \<Rightarrow> nat" where
  "granted Complete n = n"
| "granted (Partial k) n = min k n"
| "granted OSFail n = 0"

fun lowest_free :: "'a option list \<Rightarrow> nat" where
  "lowest_free [] = 0"
| "lowest_free (None # xs) = 0"
| "lowest_free (Some x # xs) = Suc (lowest_free xs)"

definition fd_install :: "'a option list \<Rightarrow> nat \<Rightarrow> 'a \<Rightarrow> 'a option list" where
  "fd_install xs i v = (if i < length xs then xs[i := Some v] else xs @ [Some v])"

definition fd_lookup :: "os_state \<Rightarrow> int \<Rightarrow> (string \<times> nat) option" where
  "fd_lookup os fd =
     (if 0 \<le> fd \<and> nat fd < length (fdtab os) then fdtab os ! nat fd else None)"

definition file_bytes :: "os_state \<Rightarrow> string \<Rightarrow> byte list" where
  "file_bytes os path = (case files os path of Some (Regular rw bs) \<Rightarrow> bs | _ \<Rightarrow> [])"

text \<open>A value wrapped around in two's complement at a width of \<open>bits\<close> bits, and at
  the 32 bits of an \<^verbatim>\<open>int\<close>.\<close>

definition wrap_signed :: "nat \<Rightarrow> int \<Rightarrow> int" where
  "wrap_signed bits x = (x + 2 ^ (bits - 1)) mod 2 ^ bits - 2 ^ (bits - 1)"

definition as_int :: "int \<Rightarrow> int" where
  "as_int x = wrap_signed 32 x"

text \<open>The conversion of an \<^verbatim>\<open>int\<close> byte count to the \<^verbatim>\<open>size_t\<close> parameter of
  \<^verbatim>\<open>read\<close> and \<^verbatim>\<open>write\<close> (64 bits).\<close>

definition size_t_of_int :: "int \<Rightarrow> nat" where
  "size_t_of_int n = nat (n mod 2 ^ 64)"

text \<open>\<^verbatim>\<open>stat(path, &st)\<close>: the inode, or nothing when the call returns \<open>-1\<close>.\<close>

definition sys_stat :: "os_state \<Rightarrow> string \<Rightarrow> inode option" where
  "sys_stat os path = files os path"

text \<open>\<^verbatim>\<open>open(path, O_RDWR)\<close>: the lowest free descriptor, or \<open>-1\<close> when the path is
  missing, is not a regular file the process may open read/write, or the descriptor
  limit is reached.\<close>

definition sys_open :: "os_state \<Rightarrow> string \<Rightarrow> int \<times> os_state" where
  "sys_open os path =
     (case files os path of
        Some (Regular True bs) \<Rightarrow>
          (let fd = lowest_free (fdtab os) in
           if fd < fd_limit os
           then (int fd, os\<lparr>fdtab := fd_install (fdtab os) fd (path, 0)\<rparr>)
           else (-1, os))
      | _ \<Rightarrow> (-1, os))"

definition sys_close :: "os_state \<Rightarrow> int \<Rightarrow> int \<times> os_state" where
  "sys_close os fd =
     (case fd_lookup os fd of
        None \<Rightarrow> (-1, os)
      | Some d \<Rightarrow> (0, os\<lparr>fdtab := (fdtab os)[nat fd := None]\<rparr>))"

text \<open>\<^verbatim>\<open>lseek(fd, off, SEEK_SET)\<close> and \<^verbatim>\<open>lseek(fd, 0, SEEK_END)\<close>.\<close>

definition sys_lseek_set :: "os_state \<Rightarrow> int \<Rightarrow> int \<Rightarrow> int \<times> os_state" where
  "sys_lseek_set os fd off =
     (case fd_lookup os fd of
        None \<Rightarrow> (-1, os)
      | Some (p, pos) \<Rightarrow>
          if off < 0 then (-1, os)
          else (off, os\<lparr>fdtab := (fdtab os)[nat fd := Some (p, nat off)]\<rparr>))"

definition sys_lseek_end :: "os_state \<Rightarrow> int \<Rightarrow> int \<times> os_state" where
  "sys_lseek_end os fd =
     (case fd_lookup os fd of
        None \<Rightarrow> (-1, os)
      | Some (p, pos) \<Rightarrow>
          (let n = length (file_bytes os p)
           in (int n, os\<lparr>fdtab := (fdtab os)[nat fd := Some (p, n)]\<rparr>)))"

text \<open>Storing \<open>new\<close> at position \<open>pos\<close> of a file: a hole before it reads as zeros.\<close>

definition write_at :: "byte list \<Rightarrow> nat \<Rightarrow> byte list \<Rightarrow> byte list" where
  "write_at old pos new =
     (if new = [] then old
      else take pos old @ replicate (pos - length old) 0 @ new @ drop (pos + length new) old)"

text \<open>\<^verbatim>\<open>write(fd, buf, count)\<close>: \<open>buf\<close> is the memory readable at the pointer; a count
  beyond it is \<^verbatim>\<open>EFAULT\<close>. The call returns the number of bytes transferred.\<close>

definition sys_write :: "os_state \<Rightarrow> int \<Rightarrow> byte list \<Rightarrow> nat \<Rightarrow> io_outcome \<Rightarrow> int \<times> os_state" where
  "sys_write os fd buf count outcome =
     (case fd_lookup os fd of
        None \<Rightarrow> (-1, os)
      | Some (p, pos) \<Rightarrow>
          if outcome = OSFail \<or> length buf < count then (-1, os)
          else (case files os p of
                  Some (Regular rw old) \<Rightarrow>
                    (let k = granted outcome count
                     in (int k,
                         os\<lparr>files := (files os)(p \<mapsto> Regular rw (write_at old pos (take k buf))),
                            fdtab := (fdtab os)[nat fd := Some (p, pos + k)]\<rparr>))
                | _ \<Rightarrow> (-1, os)))"

text \<open>\<^verbatim>\<open>read(fd, buf, count)\<close> into a buffer of capacity \<open>cap\<close>: the return value, the
  bytes delivered, and the new kernel state.\<close>

definition sys_read :: "os_state \<Rightarrow> int \<Rightarrow> nat \<Rightarrow> nat \<Rightarrow> io_outcome \<Rightarrow> int \<times> byte list \<times> os_state" where
  "sys_read os fd cap count outcome =
     (case fd_lookup os fd of
        None \<Rightarrow> (-1, [], os)
      | Some (p, pos) \<Rightarrow>
          if outcome = OSFail \<or> cap < count then (-1, [], os)
          else (let got = take (granted outcome count) (drop pos (file_bytes os p))
                in (int (length got), got,
                    os\<lparr>fdtab := (fdtab os)[nat fd := Some (p, pos + length got)]\<rparr>)))"


section \<open>The disk manager (\<^verbatim>\<open>storage/disk_manager.cpp\<close>)\<close>

text \<open>
  An exception of the source is a value: every operation returns either the error
  thrown or its result, together with the state at that moment, so that what a failing
  call has already changed stays visible. A failed \<^verbatim>\<open>assert\<close> (the process aborts) is
  the error \<open>AssertionFailure\<close>.
\<close>

datatype error =
    UnixError
  | FileExistsError string
  | FileNotFoundError string
  | FileNotOpenError int
  | AssertionFailure

record DiskManager =
  path2fd :: "string \<rightharpoonup> int"
  fd2path :: "int \<rightharpoonup> string"
  fd2pageno :: "int list"
  log_fd :: int

type_synonym world = "os_state \<times> DiskManager"

text \<open>
  The header \<^verbatim>\<open>disk_manager.h\<close> and \<^verbatim>\<open>defs.h\<close> are not part of the sources at hand, so
  the constants they declare are parameters of the model: \<open>PAGE_SIZE\<close>, \<open>MAX_FD\<close> (the
  length of the array \<^verbatim>\<open>fd2pageno_\<close>), \<open>LOG_FILE_NAME\<close>, and the width in bits of
  \<^verbatim>\<open>page_id_t\<close>. The member \<^verbatim>\<open>log_fd_\<close> starts at \<open>-1\<close>, the value \<^verbatim>\<open>ReadLog\<close> and
  \<^verbatim>\<open>WriteLog\<close> test for "not opened yet". The members \<^verbatim>\<open>path2fd_\<close>, \<^verbatim>\<open>fd2path_\<close>,
  \<^verbatim>\<open>fd2pageno_\<close> and \<^verbatim>\<open>log_fd_\<close> are written without the trailing underscore, which
  Isabelle does not admit in a name.
\<close>

definition DiskManager_new :: "nat \<Rightarrow> DiskManager" where
  "DiskManager_new MAX_FD =
     \<lparr>path2fd = Map.empty, fd2path = Map.empty,
      fd2pageno = replicate MAX_FD 0, log_fd = -1\<rparr>"

subsection \<open>The checked wrappers\<close>

definition Lseek :: "os_state \<Rightarrow> int \<Rightarrow> int \<Rightarrow> (error + unit) \<times> os_state" where
  "Lseek os fd offset =
     (case sys_lseek_set os fd offset of
        (r, os') \<Rightarrow> if r < 0 then (Inl UnixError, os') else (Inr (), os'))"

definition Write :: "os_state \<Rightarrow> int \<Rightarrow> byte list \<Rightarrow> nat \<Rightarrow> io_outcome \<Rightarrow> (error + unit) \<times> os_state" where
  "Write os fd buf count outcome =
     (case sys_write os fd buf count outcome of
        (r, os') \<Rightarrow> if r < 0 then (Inl UnixError, os') else (Inr (), os'))"

text \<open>\<open>Read\<close> returns the buffer as the call leaves it: the bytes delivered, then the
  rest of what the buffer held before.\<close>

definition Read :: "os_state \<Rightarrow> int \<Rightarrow> byte list \<Rightarrow> nat \<Rightarrow> io_outcome \<Rightarrow> (error + byte list) \<times> os_state" where
  "Read os fd buf count outcome =
     (case sys_read os fd (length buf) count outcome of
        (r, got, os') \<Rightarrow>
          if r < 0 then (Inl UnixError, os')
          else (Inr (got @ drop (length got) buf), os'))"

subsection \<open>Pages\<close>

text \<open>The pointer argument \<^verbatim>\<open>offset\<close> is \<open>None\<close> for \<^verbatim>\<open>nullptr\<close>, otherwise the memory
  it points to. The product \<^verbatim>\<open>page_no * PAGE_SIZE\<close> is computed in \<^verbatim>\<open>int\<close>, neither
  operand being wider, before its conversion to the \<^verbatim>\<open>off_t\<close> parameter of \<^verbatim>\<open>Lseek\<close>.\<close>

definition write_page ::
  "int \<Rightarrow> os_state \<Rightarrow> int \<Rightarrow> int \<Rightarrow> byte list option \<Rightarrow> int \<Rightarrow> io_outcome \<Rightarrow> (error + unit) \<times> os_state" where
  "write_page PAGE_SIZE os fd page_no offset num_bytes outcome =
     (case offset of
        None \<Rightarrow> (Inl AssertionFailure, os)
      | Some buf \<Rightarrow>
          if \<not> num_bytes \<le> PAGE_SIZE then (Inl AssertionFailure, os)
          else (case Lseek os fd (as_int (page_no * PAGE_SIZE)) of
                  (Inl e, os1) \<Rightarrow> (Inl e, os1)
                | (Inr u, os1) \<Rightarrow> Write os1 fd buf (size_t_of_int num_bytes) outcome))"

definition read_page ::
  "int \<Rightarrow> os_state \<Rightarrow> int \<Rightarrow> int \<Rightarrow> byte list option \<Rightarrow> int \<Rightarrow> io_outcome \<Rightarrow> (error + byte list) \<times> os_state" where
  "read_page PAGE_SIZE os fd page_no offset num_bytes outcome =
     (case offset of
        None \<Rightarrow> (Inl AssertionFailure, os)
      | Some buf \<Rightarrow>
          if \<not> num_bytes \<le> PAGE_SIZE then (Inl AssertionFailure, os)
          else (case Lseek os fd (as_int (page_no * PAGE_SIZE)) of
                  (Inl e, os1) \<Rightarrow> (Inl e, os1)
                | (Inr u, os1) \<Rightarrow> Read os1 fd buf (size_t_of_int num_bytes) outcome))"

text \<open>\<^verbatim>\<open>fd2pageno_[fd]++\<close> on a \<^verbatim>\<open>std::atomic<page_id_t>\<close>: the old value is returned and
  the increment wraps around in two's complement at the width \<open>bits\<close> of \<^verbatim>\<open>page_id_t\<close>.\<close>

definition AllocatePage :: "nat \<Rightarrow> nat \<Rightarrow> DiskManager \<Rightarrow> int \<Rightarrow> (error + int) \<times> DiskManager" where
  "AllocatePage MAX_FD bits dm fd =
     (if \<not> (0 \<le> fd \<and> fd < int MAX_FD) then (Inl AssertionFailure, dm)
      else (let old = fd2pageno dm ! nat fd
            in (Inr old, dm\<lparr>fd2pageno := (fd2pageno dm)[nat fd := wrap_signed bits (old + 1)]\<rparr>)))"

text \<open>\<open>k\<close> successive calls on one handle (the caller's loop), collecting the page
  numbers returned; the first failing call ends the run.\<close>

fun AllocatePage_times ::
  "nat \<Rightarrow> nat \<Rightarrow> nat \<Rightarrow> DiskManager \<Rightarrow> int \<Rightarrow> (error + int list) \<times> DiskManager" where
  "AllocatePage_times MAX_FD bits 0 dm fd = (Inr [], dm)"
| "AllocatePage_times MAX_FD bits (Suc k) dm fd =
     (case AllocatePage MAX_FD bits dm fd of
        (Inl e, dm1) \<Rightarrow> (Inl e, dm1)
      | (Inr p, dm1) \<Rightarrow>
          (case AllocatePage_times MAX_FD bits k dm1 fd of
             (Inl e, dm2) \<Rightarrow> (Inl e, dm2)
           | (Inr ps, dm2) \<Rightarrow> (Inr (p # ps), dm2)))"

subsection \<open>The open file table\<close>

definition is_file :: "os_state \<Rightarrow> string \<Rightarrow> bool" where
  "is_file os path =
     (case sys_stat os path of
        None \<Rightarrow> False
      | Some (Regular rw bs) \<Rightarrow> True
      | Some (NonRegular n) \<Rightarrow> False)"

text \<open>\<^verbatim>\<open>open_file\<close> calls \<^verbatim>\<open>open\<close> itself, not the checked wrapper \<^verbatim>\<open>Open\<close>: whatever
  the call returns, \<open>-1\<close> included, is stored in both maps and returned.\<close>

definition open_file :: "world \<Rightarrow> string \<Rightarrow> (error + int) \<times> world" where
  "open_file w path =
     (case w of (os, dm) \<Rightarrow>
        if \<not> is_file os path then (Inl (FileNotFoundError path), w)
        else (case path2fd dm path of
                None \<Rightarrow>
                  (case sys_open os path of
                     (fd, os') \<Rightarrow>
                       (Inr fd, (os', dm\<lparr>path2fd := (path2fd dm)(path \<mapsto> fd),
                                        fd2path := (fd2path dm)(fd \<mapsto> path)\<rparr>)))
              | Some fd \<Rightarrow> (Inr fd, w)))"

definition close_file :: "world \<Rightarrow> int \<Rightarrow> (error + unit) \<times> world" where
  "close_file w fd =
     (case w of (os, dm) \<Rightarrow>
        (case fd2path dm fd of
           Some path \<Rightarrow>
             (case sys_close os fd of
                (r, os') \<Rightarrow>
                  (Inr (), (os', dm\<lparr>path2fd := (path2fd dm)(path := None),
                                   fd2path := (fd2path dm)(fd := None)\<rparr>)))
         | None \<Rightarrow> (Inl (FileNotOpenError fd), w)))"

text \<open>A caller's sequence of \<^verbatim>\<open>open_file\<close> and \<^verbatim>\<open>close_file\<close> calls; a call that throws
  leaves the state as it was at the throw, and the caller goes on.\<close>

datatype file_op = OpenOp string | CloseOp int

fun file_step :: "world \<Rightarrow> file_op \<Rightarrow> world" where
  "file_step w (OpenOp path) = snd (open_file w path)"
| "file_step w (CloseOp fd) = snd (close_file w fd)"

definition file_run :: "world \<Rightarrow> file_op list \<Rightarrow> world" where
  "file_run w ops = foldl file_step w ops"

text \<open>The invariant of the open file table: the two maps are inverse to each other.\<close>

definition table_inv :: "DiskManager \<Rightarrow> bool" where
  "table_inv dm = (\<forall>p fd. (path2fd dm p = Some fd) = (fd2path dm fd = Some p))"

text \<open>Every handle in the table is an open descriptor of the process.\<close>

definition handles_open :: "os_state \<Rightarrow> DiskManager \<Rightarrow> bool" where
  "handles_open os dm = (\<forall>fd p. fd2path dm fd = Some p \<longrightarrow> fd_lookup os fd \<noteq> None)"

text \<open>Along a sequence of calls, every handle that \<^verbatim>\<open>open_file\<close> returns is a
  descriptor, never the \<open>-1\<close> of a failed \<^verbatim>\<open>open\<close>.\<close>

fun opens_succeed :: "world \<Rightarrow> file_op list \<Rightarrow> bool" where
  "opens_succeed w [] = True"
| "opens_succeed w (OpenOp path # ops) =
     ((case fst (open_file w path) of Inl e \<Rightarrow> True | Inr fd \<Rightarrow> 0 \<le> fd)
      \<and> opens_succeed (file_step w (OpenOp path)) ops)"
| "opens_succeed w (CloseOp fd # ops) = opens_succeed (file_step w (CloseOp fd)) ops"

subsection \<open>The log file\<close>

text \<open>\<^verbatim>\<open>GetFileSize\<close> returns \<^verbatim>\<open>st_size\<close>, an \<^verbatim>\<open>off_t\<close>, as an \<^verbatim>\<open>int\<close>.\<close>

definition GetFileSize :: "os_state \<Rightarrow> string \<Rightarrow> int" where
  "GetFileSize os file_name =
     (case sys_stat os file_name of
        None \<Rightarrow> -1
      | Some (Regular rw bs) \<Rightarrow> as_int (int (length bs))
      | Some (NonRegular n) \<Rightarrow> as_int (int n))"

text \<open>The first lines of \<^verbatim>\<open>ReadLog\<close> and of \<^verbatim>\<open>WriteLog\<close>: open the log file when
  \<^verbatim>\<open>log_fd_\<close> is still \<open>-1\<close>.\<close>

definition open_log :: "string \<Rightarrow> world \<Rightarrow> (error + unit) \<times> world" where
  "open_log LOG_FILE_NAME w =
     (if log_fd (snd w) = -1
      then (case open_file w LOG_FILE_NAME of
              (Inl e, w1) \<Rightarrow> (Inl e, w1)
            | (Inr fd, (os1, dm1)) \<Rightarrow> (Inr (), (os1, dm1\<lparr>log_fd := fd\<rparr>)))
      else (Inr (), w))"

text \<open>\<^verbatim>\<open>ReadLog\<close> returns its boolean and the buffer \<^verbatim>\<open>log_data\<close> as the call leaves it.
  The parameter \<^verbatim>\<open>size\<close> is \<open>size_in\<close> here, and \<open>size_clamped\<close> once the source has
  overwritten it with the minimum. The sum \<^verbatim>\<open>offset + prev_log_end\<close> and the difference
  \<^verbatim>\<open>file_size - offset\<close> are computed in \<^verbatim>\<open>int\<close>.\<close>

definition ReadLog ::
  "string \<Rightarrow> world \<Rightarrow> byte list \<Rightarrow> int \<Rightarrow> int \<Rightarrow> int \<Rightarrow> io_outcome \<Rightarrow> (error + bool \<times> byte list) \<times> world" where
  "ReadLog LOG_FILE_NAME w log_data size_in offset prev_log_end outcome =
     (case open_log LOG_FILE_NAME w of
        (Inl e, w1) \<Rightarrow> (Inl e, w1)
      | (Inr u, (os1, dm1)) \<Rightarrow>
          (let offset' = as_int (offset + prev_log_end);
               file_size = GetFileSize os1 LOG_FILE_NAME
           in if offset' \<ge> file_size then (Inr (False, log_data), (os1, dm1))
              else (let size_clamped = min size_in (as_int (file_size - offset'));
                        os2 = snd (sys_lseek_set os1 (log_fd dm1) offset')
                    in (case sys_read os2 (log_fd dm1) (length log_data) (size_t_of_int size_clamped) outcome of
                          (bytes_read, got, os3) \<Rightarrow>
                            if bytes_read \<noteq> size_clamped then (Inl UnixError, (os3, dm1))
                            else (Inr (True, got @ drop (length got) log_data), (os3, dm1))))))"

definition WriteLog ::
  "string \<Rightarrow> world \<Rightarrow> byte list \<Rightarrow> int \<Rightarrow> io_outcome \<Rightarrow> (error + unit) \<times> world" where
  "WriteLog LOG_FILE_NAME w log_data size_in outcome =
     (case open_log LOG_FILE_NAME w of
        (Inl e, w1) \<Rightarrow> (Inl e, w1)
      | (Inr u, (os1, dm1)) \<Rightarrow>
          (let os2 = snd (sys_lseek_end os1 (log_fd dm1))
           in (case sys_write os2 (log_fd dm1) log_data (size_t_of_int size_in) outcome of
                 (bytes_write, os3) \<Rightarrow>
                   if bytes_write \<noteq> size_in then (Inl UnixError, (os3, dm1))
                   else (Inr (), (os3, dm1)))))"


section \<open>The delete executor (\<^verbatim>\<open>execution/executor_delete.h\<close>)\<close>

text \<open>
  \<^verbatim>\<open>DeleteExecutor::Next\<close> works through three collaborators whose code is not part of
  the sources at hand: the record file behind \<^verbatim>\<open>fh_\<close>, the index handles in
  \<^verbatim>\<open>sm_manager_->ihs_\<close>, and the transaction \<^verbatim>\<open>context_->txn_\<close>. Their state is explicit
  here, and every call \<^verbatim>\<open>Next\<close> makes to them is also appended to a call log, in the
  order the calls are made.

  Of the metadata structs only the fields \<^verbatim>\<open>Next\<close> reads are kept: \<^verbatim>\<open>cols\<close> of
  \<^verbatim>\<open>TabMeta\<close>; \<^verbatim>\<open>index\<close> and \<^verbatim>\<open>offset\<close> of \<^verbatim>\<open>ColMeta\<close> (here \<open>col_index\<close> and
  \<open>col_offset\<close>), and with them the length of the column's bytes (\<open>col_len\<close>), which
  the index needs to read its key. The members \<^verbatim>\<open>tab_\<close>, \<^verbatim>\<open>rids_\<close> and \<^verbatim>\<open>tab_name_\<close>
  lose their trailing underscore; \<^verbatim>\<open>conds_\<close> is never read.
\<close>

datatype Rid = Rid int int   \<comment> \<open>page number and slot number\<close>

record ColMeta =
  col_len :: nat
  col_offset :: nat
  col_index :: bool

record TabMeta =
  cols :: "ColMeta list"

datatype WType = INSERT_TUPLE | DELETE_TUPLE | UPDATE_TUPLE

datatype WriteRecord = WriteRecord WType string Rid "byte list"

datatype exec_error = RecordNotFound | KeyNotFound | IndexNotFound

type_synonym IxIndexHandle = "byte list \<rightharpoonup> Rid"

datatype call =
    GetRecord Rid
  | DeleteEntry string "byte list"
  | DeleteRecord Rid
  | AppendWriteRecord WriteRecord

record exec_state =
  fh :: "Rid \<rightharpoonup> byte list"
  ihs :: "string \<rightharpoonup> IxIndexHandle"
  write_set :: "WriteRecord list"
  calls :: "call list"

record DeleteExecutor =
  tab :: TabMeta
  rids :: "Rid list"
  tab_name :: string

subsection \<open>The collaborators\<close>

text \<open>Modelled from the spec: \<^verbatim>\<open>RmFileHandle::get_record\<close>, the Heap Record Store's
  \<open>get(rid) -> bytes\<close>, which fails with RecordNotFound on an invalid rid.\<close>

definition get_record :: "exec_state \<Rightarrow> Rid \<Rightarrow> (exec_error + byte list) \<times> exec_state" where
  "get_record s rid =
     (let s1 = s\<lparr>calls := calls s @ [GetRecord rid]\<rparr>
      in case fh s rid of
           None \<Rightarrow> (Inl RecordNotFound, s1)
         | Some row \<Rightarrow> (Inr row, s1))"

text \<open>Modelled from the spec: \<^verbatim>\<open>RmFileHandle::delete_record\<close>, the Heap Record Store's
  \<open>delete(rid)\<close>, which fails with RecordNotFound on an invalid rid.\<close>

definition delete_record :: "exec_state \<Rightarrow> Rid \<Rightarrow> (exec_error + unit) \<times> exec_state" where
  "delete_record s rid =
     (let s1 = s\<lparr>calls := calls s @ [DeleteRecord rid]\<rparr>
      in case fh s rid of
           None \<Rightarrow> (Inl RecordNotFound, s1)
         | Some row \<Rightarrow> (Inr (), s1\<lparr>fh := (fh s)(rid := None)\<rparr>))"

text \<open>\<^verbatim>\<open>sm_manager_->ihs_.at(name)\<close>: the lookup of \<^verbatim>\<open>std::unordered_map::at\<close> throws when
  there is no such index (the spec's IndexNotFound).\<close>

definition ihs_at :: "exec_state \<Rightarrow> string \<Rightarrow> exec_error + IxIndexHandle" where
  "ihs_at s ix_name = (case ihs s ix_name of None \<Rightarrow> Inl IndexNotFound | Some ih \<Rightarrow> Inr ih)"

text \<open>Modelled from the spec: \<^verbatim>\<open>IxIndexHandle::delete_entry\<close>, the Index Access
  Facade's delete of an entry, which fails with KeyNotFound if the entry is absent.
  An index holds (encoded key, Rid) entries, one per key. The call in \<^verbatim>\<open>Next\<close> is
  \<^verbatim>\<open>ih->delete_entry(rec->data + col.offset, context_->txn_)\<close>: it hands over the key and
  the transaction and no Rid, so the entry is found by its key.\<close>

definition delete_entry :: "IxIndexHandle \<Rightarrow> byte list \<Rightarrow> exec_error + IxIndexHandle" where
  "delete_entry ih key =
     (case ih key of None \<Rightarrow> Inl KeyNotFound | Some r \<Rightarrow> Inr (ih(key := None)))"

text \<open>Modelled from the spec: \<^verbatim>\<open>Transaction::AppendWriteRecord\<close>, which always succeeds
  and appends to the transaction's ordered list of write records.\<close>

definition append_write_record :: "exec_state \<Rightarrow> WriteRecord \<Rightarrow> exec_state" where
  "append_write_record s wr =
     s\<lparr>write_set := write_set s @ [wr], calls := calls s @ [AppendWriteRecord wr]\<rparr>"

subsection \<open>\<^verbatim>\<open>DeleteExecutor::Next\<close>\<close>

text \<open>Modelled from the spec: the key the index reads at the pointer
  \<^verbatim>\<open>rec->data + col.offset\<close> that \<^verbatim>\<open>Next\<close> hands over, "the column's encoded byte range
  within the fetched row": the column's \<open>col_len\<close> bytes from \<open>col_offset\<close> on.\<close>

definition key_of :: "ColMeta \<Rightarrow> byte list \<Rightarrow> byte list" where
  "key_of col row = take (col_len col) (drop (col_offset col) row)"

text \<open>The first loop: look up the handle of every indexed column, from column \<open>col_i\<close>
  on. The vector \<^verbatim>\<open>ihs\<close> it fills is not read again. The naming of index files,
  \<^verbatim>\<open>IxManager::get_index_name\<close>, is a parameter of the model.\<close>

fun collect_handles ::
  "(string \<Rightarrow> nat \<Rightarrow> string) \<Rightarrow> exec_state \<Rightarrow> string \<Rightarrow> ColMeta list \<Rightarrow> nat \<Rightarrow> exec_error + unit" where
  "collect_handles get_index_name s tn [] col_i = Inr ()"
| "collect_handles get_index_name s tn (col # cs) col_i =
     (if col_index col
      then (case ihs_at s (get_index_name tn col_i) of
              Inl e \<Rightarrow> Inl e
            | Inr ih \<Rightarrow> collect_handles get_index_name s tn cs (Suc col_i))
      else collect_handles get_index_name s tn cs (Suc col_i))"

text \<open>The inner loop over the columns of one fetched row, from column \<open>i\<close> on.\<close>

fun delete_entries ::
  "(string \<Rightarrow> nat \<Rightarrow> string) \<Rightarrow> exec_state \<Rightarrow> string \<Rightarrow> byte list \<Rightarrow> ColMeta list \<Rightarrow> nat
     \<Rightarrow> (exec_error + unit) \<times> exec_state" where
  "delete_entries get_index_name s tn row [] i = (Inr (), s)"
| "delete_entries get_index_name s tn row (col # cs) i =
     (if col_index col
      then (case ihs_at s (get_index_name tn i) of
              Inl e \<Rightarrow> (Inl e, s)
            | Inr ih \<Rightarrow>
                (let s1 = s\<lparr>calls := calls s @ [DeleteEntry (get_index_name tn i) (key_of col row)]\<rparr>
                 in case delete_entry ih (key_of col row) of
                      Inl e \<Rightarrow> (Inl e, s1)
                    | Inr ih' \<Rightarrow>
                        delete_entries get_index_name
                          (s1\<lparr>ihs := (ihs s1)(get_index_name tn i \<mapsto> ih')\<rparr>) tn row cs (Suc i)))
      else delete_entries get_index_name s tn row cs (Suc i))"

text \<open>The body of the loop over \<^verbatim>\<open>rids_\<close>.\<close>

definition delete_rid ::
  "(string \<Rightarrow> nat \<Rightarrow> string) \<Rightarrow> DeleteExecutor \<Rightarrow> exec_state \<Rightarrow> Rid \<Rightarrow> (exec_error + unit) \<times> exec_state" where
  "delete_rid get_index_name ex s rid =
     (case get_record s rid of
        (Inl e, s1) \<Rightarrow> (Inl e, s1)
      | (Inr row, s1) \<Rightarrow>
          (case delete_entries get_index_name s1 (tab_name ex) row (cols (tab ex)) 0 of
             (Inl e, s2) \<Rightarrow> (Inl e, s2)
           | (Inr u, s2) \<Rightarrow>
               (case delete_record s2 rid of
                  (Inl e, s3) \<Rightarrow> (Inl e, s3)
                | (Inr u', s3) \<Rightarrow>
                    (Inr (), append_write_record s3
                               (WriteRecord DELETE_TUPLE (tab_name ex) rid row)))))"

fun delete_rids ::
  "(string \<Rightarrow> nat \<Rightarrow> string) \<Rightarrow> DeleteExecutor \<Rightarrow> exec_state \<Rightarrow> Rid list \<Rightarrow> (exec_error + unit) \<times> exec_state" where
  "delete_rids get_index_name ex s [] = (Inr (), s)"
| "delete_rids get_index_name ex s (rid # rs) =
     (case delete_rid get_index_name ex s rid of
        (Inl e, s1) \<Rightarrow> (Inl e, s1)
      | (Inr u, s1) \<Rightarrow> delete_rids get_index_name ex s1 rs)"

definition Next ::
  "(string \<Rightarrow> nat \<Rightarrow> string) \<Rightarrow> DeleteExecutor \<Rightarrow> exec_state \<Rightarrow> (exec_error + unit) \<times> exec_state" where
  "Next get_index_name ex s =
     (case collect_handles get_index_name s (tab_name ex) (cols (tab ex)) 0 of
        Inl e \<Rightarrow> (Inl e, s)
      | Inr u \<Rightarrow> delete_rids get_index_name ex s (rids ex))"

text \<open>The calls a run on \<open>rs\<close> is expected to make, from the rows the record file holds
  at the start: per row identifier the fetch, one index deletion per indexed column in
  column order, the heap deletion, and the write record. A row identifier that does
  not resolve ends the schedule with its fetch.\<close>

fun index_calls :: "(string \<Rightarrow> nat \<Rightarrow> string) \<Rightarrow> string \<Rightarrow> byte list \<Rightarrow> ColMeta list \<Rightarrow> nat \<Rightarrow> call list" where
  "index_calls get_index_name tn row [] i = []"
| "index_calls get_index_name tn row (col # cs) i =
     (if col_index col
      then DeleteEntry (get_index_name tn i) (key_of col row)
             # index_calls get_index_name tn row cs (Suc i)
      else index_calls get_index_name tn row cs (Suc i))"

definition rid_calls :: "(string \<Rightarrow> nat \<Rightarrow> string) \<Rightarrow> DeleteExecutor \<Rightarrow> Rid \<Rightarrow> byte list \<Rightarrow> call list" where
  "rid_calls get_index_name ex rid row =
     GetRecord rid # index_calls get_index_name (tab_name ex) row (cols (tab ex)) 0
       @ [DeleteRecord rid, AppendWriteRecord (WriteRecord DELETE_TUPLE (tab_name ex) rid row)]"


text \<open>Every indexed column of the table has an index handle: what the first loop of
  \<^verbatim>\<open>Next\<close> checks.\<close>

definition has_handles :: "(string \<Rightarrow> nat \<Rightarrow> string) \<Rightarrow> DeleteExecutor \<Rightarrow> exec_state \<Rightarrow> bool" where
  "has_handles get_index_name ex s =
     (\<forall>i<length (cols (tab ex)). col_index (cols (tab ex) ! i) \<longrightarrow>
        ihs s (get_index_name (tab_name ex) i) \<noteq> None)"

text \<open>The indexes \<open>m'\<close> hold the same handles as \<open>m\<close>, each with a subset of its
  entries.\<close>

definition ix_shrinks :: "(string \<rightharpoonup> IxIndexHandle) \<Rightarrow> (string \<rightharpoonup> IxIndexHandle) \<Rightarrow> bool" where
  "ix_shrinks m m' =
     (\<forall>n. case m' n of
            None \<Rightarrow> m n = None
          | Some ih' \<Rightarrow> (\<exists>ih. m n = Some ih \<and> ih' \<subseteq>\<^sub>m ih))"

section \<open>Example states\<close>

text \<open>A kernel with no files, and one with the three standard descriptors open on the
  terminal, an empty table file, a log file of five bytes, and two regular files the
  process has no permission to open read/write.\<close>

definition os_empty :: os_state where
  "os_empty = \<lparr>files = Map.empty, fdtab = [], fd_limit = 1024\<rparr>"

definition os_example :: os_state where
  "os_example =
     \<lparr>files = [''/dev/tty'' \<mapsto> NonRegular 0,
               ''t.db'' \<mapsto> Regular True [],
               ''db.log'' \<mapsto> Regular True [1, 2, 3, 4, 5],
               ''a.db'' \<mapsto> Regular False [],
               ''b.db'' \<mapsto> Regular False []],
      fdtab = [Some (''/dev/tty'', 0), Some (''/dev/tty'', 0), Some (''/dev/tty'', 0)],
      fd_limit = 1024\<rparr>"

text \<open>The same kernel once \<^verbatim>\<open>t.db\<close> has been opened: it is descriptor 3.\<close>

definition os_opened :: os_state where
  "os_opened = snd (sys_open os_example ''t.db'')"

text \<open>The same kernel with a log file of 2 GiB.\<close>

definition os_big_log :: os_state where
  "os_big_log =
     os_example\<lparr>files := (files os_example)(''db.log'' \<mapsto> Regular True (replicate (2 ^ 31) 0))\<rparr>"

text \<open>A fresh manager on that kernel.\<close>

definition w_example :: world where
  "w_example = (os_example, DiskManager_new 8)"

text \<open>A table \<^verbatim>\<open>T\<close> with an indexed one-byte column followed by a two-byte column
  without index, two rows, and the index on the first column; an index naming for the
  examples.\<close>

definition example_index_name :: "string \<Rightarrow> nat \<Rightarrow> string" where
  "example_index_name tn i = tn @ ''_'' @ replicate i (CHR ''i'') @ ''.idx''"

definition ex_example :: DeleteExecutor where
  "ex_example =
     \<lparr>tab = \<lparr>cols = [\<lparr>col_len = 1, col_offset = 0, col_index = True\<rparr>,
                    \<lparr>col_len = 2, col_offset = 1, col_index = False\<rparr>]\<rparr>,
      rids = [Rid 1 0, Rid 1 1],
      tab_name = ''T''\<rparr>"

definition s_example :: exec_state where
  "s_example =
     \<lparr>fh = [Rid 1 0 \<mapsto> [5, 120, 0], Rid 1 1 \<mapsto> [6, 121, 0]],
      ihs = [''T_.idx'' \<mapsto> [[5] \<mapsto> Rid 1 0, [6] \<mapsto> Rid 1 1]],
      write_set = [],
      calls = []\<rparr>"

text \<open>The same rows with the index entry of the second row missing.\<close>

definition s_missing :: exec_state where
  "s_missing =
     \<lparr>fh = [Rid 1 0 \<mapsto> [5, 120, 0], Rid 1 1 \<mapsto> [6, 121, 0]],
      ihs = [''T_.idx'' \<mapsto> [[5] \<mapsto> Rid 1 0]],
      write_set = [],
      calls = []\<rparr>"

text \<open>Index and heap out of step: the row at \<open>Rid 1 1\<close> has key 5, and the only index
  entry under key 5 belongs to \<open>Rid 1 0\<close>.\<close>

definition ix_diverged :: IxIndexHandle where
  "ix_diverged = [[5] \<mapsto> Rid 1 0]"

definition s_diverged :: exec_state where
  "s_diverged =
     \<lparr>fh = [Rid 1 1 \<mapsto> [5, 121, 0]],
      ihs = [''T_.idx'' \<mapsto> ix_diverged],
      write_set = [],
      calls = []\<rparr>"


section \<open>Properties of the disk manager\<close>

subsection \<open>Kernel calls on an open descriptor\<close>

lemma drop_write_at:
  "drop pos (write_at old pos new)
     = (if new = [] then drop pos old else new @ drop (pos + length new) old)"
  by (simp add: write_at_def min_def)

lemma read_back_write_at: "take (length new) (drop pos (write_at old pos new)) = new"
  by (simp add: drop_write_at)

lemma size_t_of_int_id: "0 \<le> n \<Longrightarrow> n < 2 ^ 64 \<Longrightarrow> size_t_of_int n = nat n"
  by (simp add: size_t_of_int_def)

lemma fd_lookup_update:
  "fd_lookup os fd = Some d \<Longrightarrow>
   fd_lookup (os\<lparr>fdtab := (fdtab os)[nat fd := Some d']\<rparr>) fd = Some d'"
  by (auto simp: fd_lookup_def split: if_splits)

lemma file_bytes_cong: "files os' = files os \<Longrightarrow> file_bytes os' p = file_bytes os p"
  by (simp add: file_bytes_def)

lemma sys_lseek_set_ok:
  assumes "fd_lookup os fd = Some (p, pos)" "0 \<le> off"
  obtains os' where "sys_lseek_set os fd off = (off, os')" "files os' = files os"
    "fd_lookup os' fd = Some (p, nat off)"
proof
  let ?os' = "os\<lparr>fdtab := (fdtab os)[nat fd := Some (p, nat off)]\<rparr>"
  show "sys_lseek_set os fd off = (off, ?os')"
    using assms by (simp add: sys_lseek_set_def)
  show "files ?os' = files os" by simp
  show "fd_lookup ?os' fd = Some (p, nat off)" using assms(1) by (rule fd_lookup_update)
qed

lemma Lseek_ok:
  assumes "fd_lookup os fd = Some (p, pos)" "0 \<le> off"
  obtains os' where "Lseek os fd off = (Inr (), os')" "files os' = files os"
    "fd_lookup os' fd = Some (p, nat off)"
proof -
  from sys_lseek_set_ok [OF assms] obtain os' where
    *: "sys_lseek_set os fd off = (off, os')" "files os' = files os"
       "fd_lookup os' fd = Some (p, nat off)" by blast
  have "Lseek os fd off = (Inr (), os')" using * assms(2) by (simp add: Lseek_def)
  with * that show ?thesis by blast
qed

lemma sys_write_ok:
  assumes "fd_lookup os fd = Some (p, pos)" "files os p = Some (Regular rw old)"
    "count \<le> length buf" "outcome \<noteq> OSFail"
  obtains os' where
    "sys_write os fd buf count outcome = (int (granted outcome count), os')"
    "files os' p = Some (Regular rw (write_at old pos (take (granted outcome count) buf)))"
    "fd_lookup os' fd = Some (p, pos + granted outcome count)"
proof
  let ?k = "granted outcome count"
  let ?os' = "os\<lparr>files := (files os)(p \<mapsto> Regular rw (write_at old pos (take ?k buf))),
                  fdtab := (fdtab os)[nat fd := Some (p, pos + ?k)]\<rparr>"
  show "sys_write os fd buf count outcome = (int ?k, ?os')"
    using assms by (simp add: sys_write_def Let_def)
  show "files ?os' p = Some (Regular rw (write_at old pos (take ?k buf)))" by simp
  show "fd_lookup ?os' fd = Some (p, pos + ?k)"
    using assms(1) by (auto simp: fd_lookup_def split: if_splits)
qed

lemma sys_read_ok:
  assumes "fd_lookup os fd = Some (p, pos)" "count \<le> cap" "outcome \<noteq> OSFail"
  obtains os' where
    "sys_read os fd cap count outcome
       = (int (length (take (granted outcome count) (drop pos (file_bytes os p)))),
          take (granted outcome count) (drop pos (file_bytes os p)), os')"
    "files os' = files os"
    "fd_lookup os' fd
       = Some (p, pos + length (take (granted outcome count) (drop pos (file_bytes os p))))"
proof
  let ?got = "take (granted outcome count) (drop pos (file_bytes os p))"
  let ?os' = "os\<lparr>fdtab := (fdtab os)[nat fd := Some (p, pos + length ?got)]\<rparr>"
  show "sys_read os fd cap count outcome = (int (length ?got), ?got, ?os')"
    using assms by (simp add: sys_read_def Let_def)
  show "files ?os' = files os" by simp
  show "fd_lookup ?os' fd = Some (p, pos + length ?got)"
    using assms(1) by (rule fd_lookup_update)
qed

lemma sys_read_fail:
  "fst (sys_read os fd cap count OSFail) = -1"
  by (simp add: sys_read_def split: option.splits)

lemma os_opened_fd: "fd_lookup os_opened 3 = Some (''t.db'', 0)"
  by (simp add: os_opened_def os_example_def sys_open_def fd_install_def fd_lookup_def Let_def)

lemma os_opened_file: "files os_opened ''t.db'' = Some (Regular True [])"
  by (simp add: os_opened_def os_example_def sys_open_def fd_install_def Let_def)

subsection \<open>Page numbers\<close>

lemma wrap_signed_id:
  assumes "0 < bits" "- (2 ^ (bits - 1)) \<le> x" "x < 2 ^ (bits - 1)"
  shows "wrap_signed bits x = x"
proof -
  have p: "(2::int) ^ bits = 2 * 2 ^ (bits - 1)" using assms(1) by (cases bits) simp_all
  have "0 \<le> x + 2 ^ (bits - 1)" "x + 2 ^ (bits - 1) < 2 ^ bits" using assms p by linarith+
  then have "(x + 2 ^ (bits - 1)) mod 2 ^ bits = x + 2 ^ (bits - 1)" by simp
  then show ?thesis by (simp add: wrap_signed_def)
qed

lemma as_int_id: "- (2 ^ 31) \<le> x \<Longrightarrow> x < 2 ^ 31 \<Longrightarrow> as_int x = x"
  unfolding as_int_def by (rule wrap_signed_id) simp_all

lemma AllocatePage_step:
  assumes "0 \<le> fd" "fd < int MAX_FD"
  shows "AllocatePage MAX_FD bits dm fd
           = (Inr (fd2pageno dm ! nat fd),
              dm\<lparr>fd2pageno := (fd2pageno dm)[nat fd := wrap_signed bits (fd2pageno dm ! nat fd + 1)]\<rparr>)"
  using assms by (simp add: AllocatePage_def Let_def)

lemma AllocatePage_times_values:
  assumes "0 \<le> fd" "fd < int MAX_FD" "length (fd2pageno dm) = MAX_FD" "0 < bits"
    and "- (2 ^ (bits - 1)) \<le> fd2pageno dm ! nat fd"
    and "fd2pageno dm ! nat fd + int k \<le> 2 ^ (bits - 1)"
  shows "fst (AllocatePage_times MAX_FD bits k dm fd)
           = Inr (map (\<lambda>i. fd2pageno dm ! nat fd + int i) [0..<k])"
  using assms
proof (induction k arbitrary: dm)
  case 0
  then show ?case by simp
next
  case (Suc k)
  let ?c = "fd2pageno dm ! nat fd"
  let ?dm1 = "dm\<lparr>fd2pageno := (fd2pageno dm)[nat fd := wrap_signed bits (?c + 1)]\<rparr>"
  have a: "AllocatePage MAX_FD bits dm fd = (Inr ?c, ?dm1)"
    using Suc.prems by (simp add: AllocatePage_step)
  have m: "map (\<lambda>i. ?c + int i) [0..<Suc k] = ?c # map (\<lambda>i. ?c + 1 + int i) [0..<k]"
    by (simp add: upt_rec[of 0 "Suc k"] map_Suc_upt[symmetric] add.assoc del: upt_Suc)
  show ?case
  proof (cases k)
    case 0
    then show ?thesis by (simp add: a)
  next
    case (Suc j)
    have w: "wrap_signed bits (?c + 1) = ?c + 1"
      using Suc.prems Suc by (intro wrap_signed_id) auto
    have i: "nat fd < length (fd2pageno dm)" using Suc.prems by auto
    have c1: "fd2pageno ?dm1 ! nat fd = ?c + 1" using i w by simp
    have ih: "fst (AllocatePage_times MAX_FD bits k ?dm1 fd)
           = Inr (map (\<lambda>i. fd2pageno ?dm1 ! nat fd + int i) [0..<k])"
      apply (rule Suc.IH)
      using Suc.prems c1 by auto
    obtain r d where eq: "AllocatePage_times MAX_FD bits k ?dm1 fd = (r, d)"
      by (cases "AllocatePage_times MAX_FD bits k ?dm1 fd")
    from ih eq c1 have r: "r = Inr (map (\<lambda>i. ?c + 1 + int i) [0..<k])" by simp
    show ?thesis
      unfolding m by (simp add: a eq r)
  qed
qed

lemma sorted_page_numbers: "sorted_wrt (<) (map (\<lambda>i. c + int i) [0..<k])"
  by (simp add: sorted_wrt_map)

lemma distinct_page_numbers: "distinct (map (\<lambda>i. c + int i) [0..<k])"
  by (simp add: distinct_map inj_on_def)

subsection \<open>Opening and closing\<close>

lemma open_file_missing:
  "\<not> is_file os path \<Longrightarrow> open_file (os, dm) path = (Inl (FileNotFoundError path), (os, dm))"
  by (simp add: open_file_def)

lemma open_file_known:
  "is_file os path \<Longrightarrow> path2fd dm path = Some fd \<Longrightarrow> open_file (os, dm) path = (Inr fd, (os, dm))"
  by (simp add: open_file_def)

lemma open_file_new:
  "is_file os path \<Longrightarrow> path2fd dm path = None \<Longrightarrow>
   open_file (os, dm) path
     = (Inr (fst (sys_open os path)),
        (snd (sys_open os path),
         dm\<lparr>path2fd := (path2fd dm)(path \<mapsto> fst (sys_open os path)),
            fd2path := (fd2path dm)(fst (sys_open os path) \<mapsto> path)\<rparr>))"
  by (simp add: open_file_def split: prod.splits)

lemma sys_open_files: "files (snd (sys_open os path)) = files os"
  by (simp add: sys_open_def Let_def split: option.splits inode.splits bool.splits)

lemma is_file_sys_open: "is_file (snd (sys_open os path)) p = is_file os p"
  by (simp add: is_file_def sys_stat_def sys_open_files)

lemma close_file_known:
  "fd2path dm fd = Some path \<Longrightarrow>
   close_file (os, dm) fd
     = (Inr (), (snd (sys_close os fd),
                 dm\<lparr>path2fd := (path2fd dm)(path := None), fd2path := (fd2path dm)(fd := None)\<rparr>))"
  by (simp add: close_file_def split: prod.splits)

lemma close_file_unknown:
  "fd2path dm fd = None \<Longrightarrow> close_file (os, dm) fd = (Inl (FileNotOpenError fd), (os, dm))"
  by (simp add: close_file_def)

subsection \<open>The table invariant along a run\<close>

lemma lowest_free_le: "lowest_free xs \<le> length xs"
  by (induction xs rule: lowest_free.induct) auto

lemma lowest_free_None: "lowest_free xs < length xs \<Longrightarrow> xs ! lowest_free xs = None"
  by (induction xs rule: lowest_free.induct) auto

lemma sys_open_fresh:
  assumes "sys_open os path = (fd, os')" "0 \<le> fd"
  shows "fd_lookup os fd = None" "fd_lookup os' fd \<noteq> None"
    "\<And>fd'. fd_lookup os fd' \<noteq> None \<Longrightarrow> fd_lookup os' fd' \<noteq> None"
proof -
  let ?i = "lowest_free (fdtab os)"
  from assms have fd: "fd = int ?i" and os': "os' = os\<lparr>fdtab := fd_install (fdtab os) ?i (path, 0)\<rparr>"
    by (auto simp: sys_open_def Let_def split: option.splits inode.splits bool.splits if_splits)
  show "fd_lookup os fd = None"
    using lowest_free_None [of "fdtab os"] by (simp add: fd fd_lookup_def)
  show "fd_lookup os' fd \<noteq> None"
    using lowest_free_le [of "fdtab os"]
    by (auto simp: fd os' fd_lookup_def fd_install_def nth_append)
  show "fd_lookup os' fd' \<noteq> None" if "fd_lookup os fd' \<noteq> None" for fd'
    using that lowest_free_None [of "fdtab os"]
    by (auto simp: os' fd_lookup_def fd_install_def nth_append nth_list_update split: if_splits)
qed

lemma sys_close_others:
  "fd' \<noteq> fd \<Longrightarrow> fd_lookup os fd' \<noteq> None \<Longrightarrow> fd_lookup (snd (sys_close os fd)) fd' \<noteq> None"
  by (auto simp: sys_close_def fd_lookup_def nth_list_update split: option.splits if_splits)

lemma table_invD: "table_inv dm \<Longrightarrow> (path2fd dm p = Some fd) = (fd2path dm fd = Some p)"
  by (simp add: table_inv_def)

lemma open_file_keeps_inv:
  assumes inv: "table_inv dm" and ho: "handles_open os dm"
    and res: "open_file (os, dm) path = (r, (os', dm'))"
    and ok: "case r of Inl e \<Rightarrow> True | Inr fd \<Rightarrow> 0 \<le> fd"
  shows "table_inv dm' \<and> handles_open os' dm'"
proof (cases "is_file os path")
  case False
  with res inv ho show ?thesis by (simp add: open_file_missing)
next
  case True
  show ?thesis
  proof (cases "path2fd dm path")
    case (Some fd)
    with True res inv ho show ?thesis by (simp add: open_file_known)
  next
    case None
    obtain fd os1 where so: "sys_open os path = (fd, os1)" by (cases "sys_open os path")
    from open_file_new [OF True None] res so
    have r: "r = Inr fd" and os': "os' = os1"
      and dm': "dm' = dm\<lparr>path2fd := (path2fd dm)(path \<mapsto> fd), fd2path := (fd2path dm)(fd \<mapsto> path)\<rparr>"
      by simp_all
    from ok r have nn: "0 \<le> fd" by simp
    note fresh = sys_open_fresh [OF so nn]
    have unused: "fd2path dm fd = None"
      using ho fresh(1) by (cases "fd2path dm fd") (auto simp: handles_open_def)
    have nofd: "\<And>q. path2fd dm q \<noteq> Some fd"
      using unused by (simp add: table_invD [OF inv])
    have nopath: "\<And>g. fd2path dm g \<noteq> Some path"
      using None by (simp add: table_invD [OF inv, symmetric])
    have "table_inv dm'"
      unfolding table_inv_def
    proof (intro allI)
      fix p g
      show "(path2fd dm' p = Some g) = (fd2path dm' g = Some p)"
        using nofd [of p] nopath [of g] table_invD [OF inv, of p g] by (auto simp: dm')
    qed
    moreover have "handles_open os' dm'"
      unfolding handles_open_def
    proof (intro allI impI)
      fix g p
      assume a: "fd2path dm' g = Some p"
      show "fd_lookup os' g \<noteq> None"
      proof (cases "g = fd")
        case True
        then show ?thesis using fresh(2) by (simp add: os')
      next
        case False
        with a have "fd2path dm g = Some p" by (simp add: dm')
        with ho have "fd_lookup os g \<noteq> None" by (auto simp: handles_open_def)
        then show ?thesis unfolding os' by (rule fresh(3))
      qed
    qed
    ultimately show ?thesis by simp
  qed
qed

lemma close_file_keeps_inv:
  assumes inv: "table_inv dm" and ho: "handles_open os dm"
    and res: "close_file (os, dm) fd = (r, (os', dm'))"
  shows "table_inv dm' \<and> handles_open os' dm'"
proof (cases "fd2path dm fd")
  case None
  with res inv ho show ?thesis by (simp add: close_file_unknown)
next
  case (Some path)
  from close_file_known [OF Some] res
  have os': "os' = snd (sys_close os fd)"
    and dm': "dm' = dm\<lparr>path2fd := (path2fd dm)(path := None), fd2path := (fd2path dm)(fd := None)\<rparr>"
    by simp_all
  have one: "\<And>g. fd2path dm g = Some path \<Longrightarrow> g = fd"
    using Some by (simp add: table_invD [OF inv, symmetric])
  have "table_inv dm'"
    unfolding table_inv_def
  proof (intro allI)
    fix p g
    show "(path2fd dm' p = Some g) = (fd2path dm' g = Some p)"
    proof (cases "p = path")
      case True
      then show ?thesis using one [of g] by (auto simp: dm')
    next
      case False
      then show ?thesis using Some table_invD [OF inv, of p g] by (auto simp: dm')
    qed
  qed
  moreover have "handles_open os' dm'"
    unfolding handles_open_def
  proof (intro allI impI)
    fix g p
    assume "fd2path dm' g = Some p"
    then have "g \<noteq> fd" "fd2path dm g = Some p" by (auto simp: dm' split: if_splits)
    with ho have "fd_lookup os g \<noteq> None" by (auto simp: handles_open_def)
    with \<open>g \<noteq> fd\<close> show "fd_lookup os' g \<noteq> None" unfolding os' by (rule sys_close_others)
  qed
  ultimately show ?thesis by simp
qed

lemma file_run_keeps_inv:
  "table_inv dm \<Longrightarrow> handles_open os dm \<Longrightarrow> opens_succeed (os, dm) ops \<Longrightarrow>
   table_inv (snd (file_run (os, dm) ops)) \<and> handles_open (fst (file_run (os, dm) ops)) (snd (file_run (os, dm) ops))"
proof (induction ops arbitrary: os dm)
  case Nil
  then show ?case by (simp add: file_run_def)
next
  case (Cons op ops)
  obtain os1 dm1 where st: "file_step (os, dm) op = (os1, dm1)" by (cases "file_step (os, dm) op")
  have keep: "table_inv dm1 \<and> handles_open os1 dm1"
  proof (cases op)
    case (OpenOp path)
    obtain r where r: "open_file (os, dm) path = (r, (os1, dm1))"
      using st OpenOp by (cases "open_file (os, dm) path") auto
    from Cons.prems(3) OpenOp r have "case r of Inl e \<Rightarrow> True | Inr fd \<Rightarrow> 0 \<le> fd" by simp
    with open_file_keeps_inv [OF Cons.prems(1,2) r] show ?thesis by simp
  next
    case (CloseOp fd)
    obtain r where r: "close_file (os, dm) fd = (r, (os1, dm1))"
      using st CloseOp by (cases "close_file (os, dm) fd") auto
    from close_file_keeps_inv [OF Cons.prems(1,2) r] show ?thesis .
  qed
  have rest: "opens_succeed (os1, dm1) ops"
    using Cons.prems(3) st by (cases op) auto
  from Cons.IH [OF _ _ rest] keep show ?case by (simp add: file_run_def st)
qed

lemma fresh_inv: "table_inv (DiskManager_new n) \<and> handles_open os (DiskManager_new n)"
  by (simp add: table_inv_def handles_open_def DiskManager_new_def)

subsection \<open>The log file\<close>

lemma granted_le: "granted outcome n \<le> n"
  by (cases outcome) simp_all

lemma GetFileSize_Regular:
  "files os p = Some (Regular rw bs) \<Longrightarrow> int (length bs) < 2 ^ 31 \<Longrightarrow>
   GetFileSize os p = int (length bs)"
  by (simp add: GetFileSize_def sys_stat_def as_int_id)

lemma open_log_example:
  "open_log ''db.log'' w_example
     = (Inr (), (fst (snd (open_log ''db.log'' w_example)), snd (snd (open_log ''db.log'' w_example))))"
proof -
  have "fst (open_log ''db.log'' w_example) = Inr ()"
    by (simp add: w_example_def open_log_def open_file_def is_file_def sys_stat_def os_example_def
        DiskManager_new_def sys_open_def fd_install_def Let_def)
  then show ?thesis by (metis prod.collapse)
qed

lemma open_log_example_fd:
  "fd_lookup (fst (snd (open_log ''db.log'' w_example))) (log_fd (snd (snd (open_log ''db.log'' w_example))))
     = Some (''db.log'', 0)"
  by (simp add: w_example_def open_log_def open_file_def is_file_def sys_stat_def os_example_def
      DiskManager_new_def sys_open_def fd_install_def Let_def fd_lookup_def)

lemma open_log_example_file:
  "files (fst (snd (open_log ''db.log'' w_example))) ''db.log'' = Some (Regular True [1, 2, 3, 4, 5])"
  by (simp add: w_example_def open_log_def open_file_def is_file_def sys_stat_def os_example_def
      DiskManager_new_def sys_open_def fd_install_def Let_def)

subsection \<open>Failing transfers\<close>

lemma page_io_os_failure:
  "num_bytes \<le> PAGE_SIZE \<Longrightarrow>
   fst (write_page PAGE_SIZE os fd page_no (Some buf) num_bytes OSFail) = Inl UnixError
   \<and> fst (read_page PAGE_SIZE os fd page_no (Some buf) num_bytes OSFail) = Inl UnixError"
  by (auto simp: write_page_def read_page_def Lseek_def Write_def Read_def sys_write_def sys_read_def
      split: prod.splits option.splits sum.splits)

text \<open>A write of which the kernel transfers only part returns normally.\<close>

lemma write_page_short_write:
  assumes fd: "fd_lookup os fd = Some (p, pos)"
    and reg: "files os p = Some (Regular rw old)"
    and pg: "0 \<le> page_no" "0 \<le> PAGE_SIZE" "page_no * PAGE_SIZE < 2 ^ 31"
    and n: "0 \<le> n" "n \<le> PAGE_SIZE" "n < 2 ^ 64" "nat n \<le> length data"
  shows "fst (write_page PAGE_SIZE os fd page_no (Some data) n (Partial k)) = Inr ()"
proof -
  have off: "0 \<le> page_no * PAGE_SIZE" using pg by simp
  have ai: "as_int (page_no * PAGE_SIZE) = page_no * PAGE_SIZE"
    using off pg(3) by (intro as_int_id) simp_all
  have sz: "size_t_of_int n = nat n" using n by (simp add: size_t_of_int_id)
  obtain osa where sa: "Lseek os fd (page_no * PAGE_SIZE) = (Inr (), osa)"
    and fa: "files osa = files os"
    and fda: "fd_lookup osa fd = Some (p, nat (page_no * PAGE_SIZE))"
    using Lseek_ok [OF fd off] by blast
  have rega: "files osa p = Some (Regular rw old)" using reg fa by simp
  obtain os1 where "sys_write osa fd data (nat n) (Partial k) = (int (granted (Partial k) (nat n)), os1)"
    using sys_write_ok [OF fda rega n(4), of "Partial k"] by auto
  then show ?thesis using n by (simp add: write_page_def ai sa Write_def sz)
qed

subsection \<open>Claims about pages, page numbers and the open file table\<close>

text \<open>
  Claim C7. \<^verbatim>\<open>AllocatePage\<close> on a handle within the range of the counter array returns
  the handle's counter and increments it. Called \<open>k\<close> times on the same handle it
  returns the \<open>k\<close> numbers \<open>c, c + 1, \<dots>, c + k - 1\<close>, where \<open>c\<close> is the counter's
  value before the first call: they are distinct and strictly increasing. A fresh
  manager has \<open>c = 0\<close>. The counter is a \<^verbatim>\<open>page_id_t\<close> of \<open>bits\<close> bits; the \<open>k\<close> numbers
  returned are required to fit it.
\<close>

theorem AllocatePage_increasing:
  assumes "0 \<le> fd" "fd < int MAX_FD" "length (fd2pageno dm) = MAX_FD" "0 < bits"
    and "- (2 ^ (bits - 1)) \<le> fd2pageno dm ! nat fd"
    and "fd2pageno dm ! nat fd + int k \<le> 2 ^ (bits - 1)"
  shows "fst (AllocatePage MAX_FD bits dm fd) = Inr (fd2pageno dm ! nat fd)
       \<and> fd2pageno (snd (AllocatePage MAX_FD bits dm fd)) ! nat fd
           = wrap_signed bits (fd2pageno dm ! nat fd + 1)
       \<and> (fd2pageno dm ! nat fd + 1 < 2 ^ (bits - 1) \<longrightarrow>
            fd2pageno (snd (AllocatePage MAX_FD bits dm fd)) ! nat fd = fd2pageno dm ! nat fd + 1)
       \<and> (let ps = map (\<lambda>i. fd2pageno dm ! nat fd + int i) [0..<k]
          in fst (AllocatePage_times MAX_FD bits k dm fd) = Inr ps
           \<and> length ps = k \<and> sorted_wrt (<) ps \<and> distinct ps)
       \<and> fd2pageno (DiskManager_new MAX_FD) ! nat fd = 0"
proof -
  have i: "nat fd < length (fd2pageno dm)" "nat fd < MAX_FD" using assms by auto
  have a: "fst (AllocatePage MAX_FD bits dm fd) = Inr (fd2pageno dm ! nat fd)"
    using assms by (simp add: AllocatePage_step)
  have b: "fd2pageno (snd (AllocatePage MAX_FD bits dm fd)) ! nat fd
           = wrap_signed bits (fd2pageno dm ! nat fd + 1)"
    using assms i by (simp add: AllocatePage_step)
  have c: "fd2pageno dm ! nat fd + 1 < 2 ^ (bits - 1) \<longrightarrow>
            fd2pageno (snd (AllocatePage MAX_FD bits dm fd)) ! nat fd = fd2pageno dm ! nat fd + 1"
    unfolding b using assms by (auto intro!: wrap_signed_id)
  have d: "fst (AllocatePage_times MAX_FD bits k dm fd)
             = Inr (map (\<lambda>i. fd2pageno dm ! nat fd + int i) [0..<k])"
    using assms by (rule AllocatePage_times_values)
  have e: "fd2pageno (DiskManager_new MAX_FD) ! nat fd = 0"
    using i by (simp add: DiskManager_new_def)
  show ?thesis using a b c d e by (simp add: Let_def sorted_page_numbers distinct_page_numbers)
qed

theorem AllocatePage_increasing_witness:
  "(0::int) \<le> 3 \<and> (3::int) < int 8 \<and> length (fd2pageno (DiskManager_new 8)) = 8 \<and> (0::nat) < 32
   \<and> fst (AllocatePage 8 32 (DiskManager_new 8) 3) = Inr 0
   \<and> fd2pageno (snd (AllocatePage 8 32 (DiskManager_new 8) 3)) ! nat 3 = 1
   \<and> fst (AllocatePage_times 8 32 3 (DiskManager_new 8) 3) = Inr [0, 1, 2]"
proof -
  have h: "(0::int) \<le> 3" "(3::int) < int 8" "length (fd2pageno (DiskManager_new 8)) = 8" "(0::nat) < 32"
    "- (2 ^ (32 - 1)) \<le> fd2pageno (DiskManager_new 8) ! nat 3"
    "fd2pageno (DiskManager_new 8) ! nat 3 + int 3 \<le> 2 ^ (32 - 1)"
    by (simp_all add: DiskManager_new_def)
  have u: "[0..<3] = [0, 1, 2]" by (simp add: upt_rec)
  from AllocatePage_increasing [OF h] show ?thesis
    using h(1-4) by (simp add: Let_def u DiskManager_new_def wrap_signed_def)
qed

text \<open>
  Claim C8. For a path that exists as a regular file, in a manager whose table does
  not hold the path yet or satisfies its invariant: \<^verbatim>\<open>open_file\<close> twice returns the same
  handle both times, the second call changing nothing; \<^verbatim>\<open>close_file\<close> on that handle
  then removes the path and the handle from both maps; a second \<^verbatim>\<open>close_file\<close> on it
  throws \<^verbatim>\<open>FileNotOpenError\<close>. \<^verbatim>\<open>open_file\<close> on a path that is not a regular file throws
  \<^verbatim>\<open>FileNotFoundError\<close> and changes nothing.
\<close>

theorem open_twice_close_twice:
  assumes reg: "is_file os path"
    and tbl: "path2fd dm path = None \<or> table_inv dm"
  shows "(\<exists>fd os1 dm1 os2 dm2.
           open_file (os, dm) path = (Inr fd, (os1, dm1))
         \<and> open_file (os1, dm1) path = (Inr fd, (os1, dm1))
         \<and> path2fd dm1 path = Some fd \<and> fd2path dm1 fd = Some path
         \<and> close_file (os1, dm1) fd = (Inr (), (os2, dm2))
         \<and> path2fd dm2 path = None \<and> fd2path dm2 fd = None
         \<and> close_file (os2, dm2) fd = (Inl (FileNotOpenError fd), (os2, dm2)))
       \<and> (\<forall>q. \<not> is_file os q \<longrightarrow>
              open_file (os, dm) q = (Inl (FileNotFoundError q), (os, dm)))"
proof (rule conjI)
  show "\<forall>q. \<not> is_file os q \<longrightarrow> open_file (os, dm) q = (Inl (FileNotFoundError q), (os, dm))"
    by (simp add: open_file_missing)
next
  show "\<exists>fd os1 dm1 os2 dm2.
           open_file (os, dm) path = (Inr fd, (os1, dm1))
         \<and> open_file (os1, dm1) path = (Inr fd, (os1, dm1))
         \<and> path2fd dm1 path = Some fd \<and> fd2path dm1 fd = Some path
         \<and> close_file (os1, dm1) fd = (Inr (), (os2, dm2))
         \<and> path2fd dm2 path = None \<and> fd2path dm2 fd = None
         \<and> close_file (os2, dm2) fd = (Inl (FileNotOpenError fd), (os2, dm2))"
  proof (cases "path2fd dm path")
    case None
    let ?fd = "fst (sys_open os path)"
    let ?os1 = "snd (sys_open os path)"
    let ?dm1 = "dm\<lparr>path2fd := (path2fd dm)(path \<mapsto> ?fd), fd2path := (fd2path dm)(?fd \<mapsto> path)\<rparr>"
    let ?os2 = "snd (sys_close ?os1 ?fd)"
    let ?dm2 = "?dm1\<lparr>path2fd := (path2fd ?dm1)(path := None), fd2path := (fd2path ?dm1)(?fd := None)\<rparr>"
    have o1: "open_file (os, dm) path = (Inr ?fd, (?os1, ?dm1))"
      using reg None by (rule open_file_new)
    have reg1: "is_file ?os1 path" using reg by (simp add: is_file_sys_open)
    have o2: "open_file (?os1, ?dm1) path = (Inr ?fd, (?os1, ?dm1))"
      using reg1 by (rule open_file_known) simp
    have c1: "close_file (?os1, ?dm1) ?fd = (Inr (), (?os2, ?dm2))"
      by (rule close_file_known) simp
    have c2: "close_file (?os2, ?dm2) ?fd = (Inl (FileNotOpenError ?fd), (?os2, ?dm2))"
      by (rule close_file_unknown) simp
    show ?thesis
      apply (rule exI[of _ ?fd], rule exI[of _ ?os1], rule exI[of _ ?dm1],
             rule exI[of _ ?os2], rule exI[of _ ?dm2])
      using o1 o2 c1 c2 by simp
  next
    case (Some fd)
    with tbl have inv: "table_inv dm" by simp
    then have inv_at: "fd2path dm fd = Some path" using Some by (simp add: table_inv_def)
    let ?os2 = "snd (sys_close os fd)"
    let ?dm2 = "dm\<lparr>path2fd := (path2fd dm)(path := None), fd2path := (fd2path dm)(fd := None)\<rparr>"
    have o1: "open_file (os, dm) path = (Inr fd, (os, dm))"
      using reg Some by (rule open_file_known)
    have c1: "close_file (os, dm) fd = (Inr (), (?os2, ?dm2))"
      using inv_at by (rule close_file_known)
    have c2: "close_file (?os2, ?dm2) fd = (Inl (FileNotOpenError fd), (?os2, ?dm2))"
      by (rule close_file_unknown) simp
    show ?thesis
      apply (rule exI[of _ fd], rule exI[of _ os], rule exI[of _ dm],
             rule exI[of _ ?os2], rule exI[of _ ?dm2])
      using o1 c1 c2 Some inv_at by simp
  qed
qed

theorem open_twice_close_twice_witness:
  "is_file os_example ''t.db'' \<and> path2fd (DiskManager_new 8) ''t.db'' = None
   \<and> (\<exists>fd os1 dm1 os2 dm2.
           open_file (os_example, DiskManager_new 8) ''t.db'' = (Inr fd, (os1, dm1))
         \<and> open_file (os1, dm1) ''t.db'' = (Inr fd, (os1, dm1))
         \<and> path2fd dm1 ''t.db'' = Some fd \<and> fd2path dm1 fd = Some ''t.db''
         \<and> close_file (os1, dm1) fd = (Inr (), (os2, dm2))
         \<and> path2fd dm2 ''t.db'' = None \<and> fd2path dm2 fd = None
         \<and> close_file (os2, dm2) fd = (Inl (FileNotOpenError fd), (os2, dm2)))
   \<and> fst (open_file (os_example, DiskManager_new 8) ''t.db'') = Inr 3
   \<and> open_file (os_example, DiskManager_new 8) ''none.db''
        = (Inl (FileNotFoundError ''none.db''), (os_example, DiskManager_new 8))"
proof -
  have a: "is_file os_example ''t.db''" by (simp add: is_file_def sys_stat_def os_example_def)
  have b: "path2fd (DiskManager_new 8) ''t.db'' = None" by (simp add: DiskManager_new_def)
  have c: "fst (open_file (os_example, DiskManager_new 8) ''t.db'') = Inr 3"
    by (simp add: open_file_def is_file_def sys_stat_def os_example_def DiskManager_new_def
        sys_open_def fd_install_def Let_def)
  have d: "\<not> is_file os_example ''none.db''"
    by (simp add: is_file_def sys_stat_def os_example_def)
  from open_twice_close_twice [OF a disjI1 [OF b]] a b c d show ?thesis by simp
qed

text \<open>
  The round trip of a page whose offset fits an \<^verbatim>\<open>int\<close>. On a descriptor open on a
  regular file, for a page number \<open>page_no \<ge> 0\<close> with \<open>page_no * PAGE_SIZE < 2 ^ 31\<close>
  and \<open>n\<close> bytes of data with \<open>0 \<le> n \<le> PAGE_SIZE\<close>, when the kernel completes both
  transfers: \<^verbatim>\<open>write_page\<close> succeeds and stores the data at byte offset
  \<open>page_no * PAGE_SIZE\<close> of the file; the following \<^verbatim>\<open>read_page\<close> succeeds and leaves
  exactly the data in the first \<open>n\<close> bytes of its buffer, the rest of the buffer
  untouched. Both calls leave the file position at \<open>page_no * PAGE_SIZE + n\<close>.
\<close>

lemma page_roundtrip_in_range:
  assumes fd: "fd_lookup os fd = Some (p, pos)"
    and reg: "files os p = Some (Regular rw old)"
    and pg: "0 \<le> page_no" "0 \<le> PAGE_SIZE" "page_no * PAGE_SIZE < 2 ^ 31"
    and n: "0 \<le> n" "n \<le> PAGE_SIZE" "PAGE_SIZE < 2 ^ 31"
    and data: "length data = nat n"
    and buf: "nat n \<le> length buf"
  shows "\<exists>os1 os2 out.
           write_page PAGE_SIZE os fd page_no (Some data) n Complete = (Inr (), os1)
         \<and> take (nat n) (drop (nat (page_no * PAGE_SIZE)) (file_bytes os1 p)) = data
         \<and> fd_lookup os1 fd = Some (p, nat (page_no * PAGE_SIZE) + nat n)
         \<and> read_page PAGE_SIZE os1 fd page_no (Some buf) n Complete = (Inr out, os2)
         \<and> take (nat n) out = data \<and> drop (nat n) out = drop (nat n) buf
         \<and> fd_lookup os2 fd = Some (p, nat (page_no * PAGE_SIZE) + nat n)"
proof -
  let ?off = "page_no * PAGE_SIZE"
  have off: "0 \<le> ?off" using pg by simp
  have ai: "as_int ?off = ?off" using off pg(3) by (intro as_int_id) simp_all
  have "n < 2 ^ 64" using n by simp
  then have sz: "size_t_of_int n = nat n" using n by (simp add: size_t_of_int_id)
  obtain osa where sa: "Lseek os fd ?off = (Inr (), osa)" and fa: "files osa = files os"
    and fda: "fd_lookup osa fd = Some (p, nat ?off)"
    using Lseek_ok [OF fd off] by blast
  have rega: "files osa p = Some (Regular rw old)" using reg fa by simp
  have le: "nat n \<le> length data" using data by simp
  obtain os1 where sw: "sys_write osa fd data (nat n) Complete = (int (nat n), os1)"
    and f1: "files os1 p = Some (Regular rw (write_at old (nat ?off) data))"
    and fd1: "fd_lookup os1 fd = Some (p, nat ?off + nat n)"
    using sys_write_ok [OF fda rega le, of Complete] data by auto
  have w: "write_page PAGE_SIZE os fd page_no (Some data) n Complete = (Inr (), os1)"
    using n by (simp add: write_page_def ai sa Write_def sw sz)
  have bytes1: "file_bytes os1 p = write_at old (nat ?off) data"
    using f1 by (simp add: file_bytes_def)
  have stored: "take (nat n) (drop (nat ?off) (file_bytes os1 p)) = data"
    unfolding bytes1 using read_back_write_at [of data "nat ?off" old] data by simp
  obtain osb where sb: "Lseek os1 fd ?off = (Inr (), osb)" and fb: "files osb = files os1"
    and fdb: "fd_lookup osb fd = Some (p, nat ?off)"
    using Lseek_ok [OF fd1 off] by blast
  have bytesb: "file_bytes osb p = file_bytes os1 p" using fb by (rule file_bytes_cong)
  obtain os2 where sr: "sys_read osb fd (length buf) (nat n) Complete = (int (length data), data, os2)"
    and fd2: "fd_lookup os2 fd = Some (p, nat ?off + length data)"
    using sys_read_ok [OF fdb buf, of Complete] stored by (auto simp: bytesb)
  let ?out = "data @ drop (length data) buf"
  have r: "read_page PAGE_SIZE os1 fd page_no (Some buf) n Complete = (Inr ?out, os2)"
    using n by (simp add: read_page_def ai sb Read_def sr sz)
  have out: "take (nat n) ?out = data" "drop (nat n) ?out = drop (nat n) buf"
    using data by simp_all
  show ?thesis
    apply (rule exI[of _ os1], rule exI[of _ os2], rule exI[of _ ?out])
    using w stored fd1 r out fd2 data by simp
qed

lemma page_roundtrip_example:
  "fd_lookup os_opened 3 = Some (''t.db'', 0)
   \<and> files os_opened ''t.db'' = Some (Regular True [])
   \<and> (\<exists>os1 os2 out.
           write_page 4096 os_opened 3 2 (Some [1, 2, 3, 4]) 4 Complete = (Inr (), os1)
         \<and> take 4 (drop 8192 (file_bytes os1 ''t.db'')) = [1, 2, 3, 4]
         \<and> fd_lookup os1 3 = Some (''t.db'', 8196)
         \<and> read_page 4096 os1 3 2 (Some [0, 0, 0, 0, 9]) 4 Complete = (Inr out, os2)
         \<and> take 4 out = [1, 2, 3, 4] \<and> drop 4 out = [9]
         \<and> fd_lookup os2 3 = Some (''t.db'', 8196))"
proof -
  have h: "(0::int) \<le> 2" "(0::int) \<le> 4096" "(2::int) * 4096 < 2 ^ 31"
    "(0::int) \<le> 4" "(4::int) \<le> 4096" "(4096::int) < 2 ^ 31"
    "length [1, 2, 3, 4 :: byte] = nat 4" "nat 4 \<le> length [0, 0, 0, 0, 9 :: byte]"
    by simp_all
  from page_roundtrip_in_range [OF os_opened_fd os_opened_file h]
  show ?thesis using os_opened_fd os_opened_file by simp
qed

text \<open>
  Claim C9, at page numbers whose offset does not fit an \<^verbatim>\<open>int\<close>. With a page size of
  4096, on descriptor 3, open on \<^verbatim>\<open>t.db\<close>, and the kernel completing every transfer:
  the offset of page 524288 is \<open>2 ^ 31\<close>, which the \<^verbatim>\<open>int\<close> product turns into
  \<open>- 2 ^ 31\<close>, so \<^verbatim>\<open>lseek\<close> fails and \<^verbatim>\<open>write_page\<close> throws \<^verbatim>\<open>UnixError\<close>; the offset of
  page 1048576 is \<open>2 ^ 32\<close>, which the product turns into 0, so \<^verbatim>\<open>write_page\<close> succeeds
  and stores the data at the start of the file, where a \<^verbatim>\<open>read_page\<close> of page 0 finds
  them. Neither call addresses the byte offset \<open>page_no * PAGE_SIZE\<close>. Within the range
  of \<^verbatim>\<open>int\<close> the round trip holds (lemma \<open>page_roundtrip_in_range\<close>).
\<close>

theorem page_offset_overflow:
  "as_int (524288 * 4096) = - (2 ^ 31)
   \<and> write_page 4096 os_opened 3 524288 (Some [1, 2, 3, 4]) 4 Complete = (Inl UnixError, os_opened)
   \<and> as_int (1048576 * 4096) = 0
   \<and> fst (write_page 4096 os_opened 3 1048576 (Some [1, 2, 3, 4]) 4 Complete) = Inr ()
   \<and> file_bytes (snd (write_page 4096 os_opened 3 1048576 (Some [1, 2, 3, 4]) 4 Complete)) ''t.db''
        = [1, 2, 3, 4]
   \<and> fst (read_page 4096 (snd (write_page 4096 os_opened 3 1048576 (Some [1, 2, 3, 4]) 4 Complete))
            3 0 (Some [0, 0, 0, 0]) 4 Complete) = Inr [1, 2, 3, 4]"
  by (simp add: write_page_def read_page_def Lseek_def Write_def Read_def sys_lseek_set_def
      sys_write_def sys_read_def os_opened_def os_example_def sys_open_def fd_install_def
      fd_lookup_def file_bytes_def write_at_def size_t_of_int_def as_int_def wrap_signed_def Let_def)

text \<open>
  Claim C10. While \<^verbatim>\<open>log_fd_\<close> is still \<open>-1\<close> and the log file does not exist as a
  regular file, \<^verbatim>\<open>ReadLog\<close> and \<^verbatim>\<open>WriteLog\<close> both throw \<^verbatim>\<open>FileNotFoundError\<close> from the
  lazy \<^verbatim>\<open>open_file\<close>: \<^verbatim>\<open>ReadLog\<close> does not return false, and neither call changes the
  files or the manager, so no log file is created.
\<close>

theorem log_lazy_open_missing_file:
  assumes "log_fd dm = -1" and "\<not> is_file os LOG_FILE_NAME"
  shows "ReadLog LOG_FILE_NAME (os, dm) log_data size_in offset prev_log_end outcome
           = (Inl (FileNotFoundError LOG_FILE_NAME), (os, dm))
       \<and> WriteLog LOG_FILE_NAME (os, dm) log_data' size_in' outcome'
           = (Inl (FileNotFoundError LOG_FILE_NAME), (os, dm))"
  using assms by (simp add: ReadLog_def WriteLog_def open_log_def open_file_missing)

theorem log_lazy_open_missing_file_witness:
  "log_fd (DiskManager_new 8) = -1 \<and> \<not> is_file os_empty ''db.log''
   \<and> ReadLog ''db.log'' (os_empty, DiskManager_new 8) [0, 0] 2 0 0 Complete
        = (Inl (FileNotFoundError ''db.log''), (os_empty, DiskManager_new 8))
   \<and> WriteLog ''db.log'' (os_empty, DiskManager_new 8) [1, 2] 2 Complete
        = (Inl (FileNotFoundError ''db.log''), (os_empty, DiskManager_new 8))
   \<and> files os_empty ''db.log'' = None"
proof -
  have a: "log_fd (DiskManager_new 8) = -1" by (simp add: DiskManager_new_def)
  have b: "\<not> is_file os_empty ''db.log''" by (simp add: is_file_def sys_stat_def os_empty_def)
  have c: "files os_empty ''db.log'' = None" by (simp add: os_empty_def)
  from log_lazy_open_missing_file [OF a b, where log_data = "[0, 0]" and size_in = 2 and offset = 0
      and prev_log_end = 0 and outcome = Complete and outcome' = Complete
      and log_data' = "[1, 2]" and size_in' = 2] a b c
  show ?thesis by simp
qed

text \<open>
  \<^verbatim>\<open>ReadLog\<close> where the log file's size and the absolute offset fit an \<^verbatim>\<open>int\<close>. Once the
  lazy open has gone through and \<^verbatim>\<open>log_fd_\<close> is a descriptor of the log file, with a
  size \<open>0 \<le> size_in\<close> that fits the buffer and an absolute offset
  \<open>0 \<le> offset + prev_log_end < 2 ^ 31\<close>, on a log file of less than \<open>2 ^ 31\<close> bytes: if
  the absolute offset is at or beyond the size of the log file, the call returns
  false, with no error and the buffer untouched; otherwise it clamps the size to \<open>n\<close>,
  the smaller of \<open>size_in\<close> and the bytes remaining after the offset, and returns true
  with exactly the \<open>n\<close> bytes at that offset in the buffer when the kernel delivers all
  \<open>n\<close> bytes, and throws \<^verbatim>\<open>UnixError\<close> when the read is short or fails.
\<close>

lemma ReadLog_in_range:
  assumes lazy: "open_log LOG_FILE_NAME w = (Inr (), (os1, dm1))"
    and fd: "fd_lookup os1 (log_fd dm1) = Some (LOG_FILE_NAME, pos)"
    and reg: "files os1 LOG_FILE_NAME = Some (Regular rw bs)"
    and sz: "0 \<le> size_in" "size_in < 2 ^ 31" "nat size_in \<le> length log_data"
    and ab: "0 \<le> offset + prev_log_end" "offset + prev_log_end < 2 ^ 31"
    and fs: "int (length bs) < 2 ^ 31"
  shows "if offset + prev_log_end \<ge> int (length bs)
         then ReadLog LOG_FILE_NAME w log_data size_in offset prev_log_end outcome
                = (Inr (False, log_data), (os1, dm1))
         else (let n = nat (min size_in (int (length bs) - (offset + prev_log_end)))
               in fst (ReadLog LOG_FILE_NAME w log_data size_in offset prev_log_end outcome)
                    = (if outcome \<noteq> OSFail \<and> granted outcome n = n
                       then Inr (True, take n (drop (nat (offset + prev_log_end)) bs) @ drop n log_data)
                       else Inl UnixError))"
proof (cases "offset + prev_log_end \<ge> int (length bs)")
  case True
  have "as_int (offset + prev_log_end) = offset + prev_log_end"
    using ab by (intro as_int_id) simp_all
  with True show ?thesis
    by (simp add: ReadLog_def lazy GetFileSize_Regular [OF reg fs])
next
  case False
  let ?abs = "offset + prev_log_end"
  let ?c = "min size_in (int (length bs) - ?abs)"
  let ?n = "nat ?c"
  have a1: "as_int ?abs = ?abs" using ab by (intro as_int_id) simp_all
  have a2: "as_int (int (length bs) - ?abs) = int (length bs) - ?abs"
    using False ab fs by (intro as_int_id) simp_all
  have c0: "0 \<le> ?c" using False sz by simp
  have cn: "?c = int ?n" using c0 by simp
  have conv: "size_t_of_int ?c = ?n"
    using c0 sz by (intro size_t_of_int_id) auto
  have cap: "?n \<le> length log_data" using sz by auto
  have room: "?n \<le> length bs - nat ?abs" using False ab(1) by auto
  obtain os2 where ls: "sys_lseek_set os1 (log_fd dm1) ?abs = (?abs, os2)"
    and f2: "files os2 = files os1"
    and fd2: "fd_lookup os2 (log_fd dm1) = Some (LOG_FILE_NAME, nat ?abs)"
    using sys_lseek_set_ok [OF fd ab(1)] by blast
  have os2: "snd (sys_lseek_set os1 (log_fd dm1) ?abs) = os2" by (simp add: ls)
  have bytes: "file_bytes os2 LOG_FILE_NAME = bs"
    using reg f2 by (simp add: file_bytes_def)
  have unfold: "ReadLog LOG_FILE_NAME w log_data size_in offset prev_log_end outcome
      = (case sys_read os2 (log_fd dm1) (length log_data) ?n outcome of
           (bytes_read, got, os3) \<Rightarrow>
             if bytes_read \<noteq> ?c then (Inl UnixError, (os3, dm1))
             else (Inr (True, got @ drop (length got) log_data), (os3, dm1)))"
    using False by (simp add: ReadLog_def lazy GetFileSize_Regular [OF reg fs] Let_def a1 a2 os2 conv)
  show ?thesis
  proof (cases "outcome = OSFail")
    case True
    obtain br got os3 where sr: "sys_read os2 (log_fd dm1) (length log_data) ?n outcome = (br, got, os3)"
      by (cases "sys_read os2 (log_fd dm1) (length log_data) ?n outcome")
    have "br = -1" using sys_read_fail [of os2 "log_fd dm1" "length log_data" ?n] sr True by simp
    then have "br \<noteq> ?c" using c0 by linarith
    then have "fst (ReadLog LOG_FILE_NAME w log_data size_in offset prev_log_end outcome) = Inl UnixError"
      unfolding unfold sr by simp
    with False True show ?thesis by (simp add: Let_def)
  next
    case ok: False
    let ?got = "take (granted outcome ?n) (drop (nat ?abs) bs)"
    have len: "length ?got = granted outcome ?n"
      using granted_le [of outcome ?n] room by simp
    obtain os3 where sr0: "sys_read os2 (log_fd dm1) (length log_data) ?n outcome
        = (int (length (take (granted outcome ?n) (drop (nat ?abs) (file_bytes os2 LOG_FILE_NAME)))),
           take (granted outcome ?n) (drop (nat ?abs) (file_bytes os2 LOG_FILE_NAME)), os3)"
      using sys_read_ok [OF fd2 cap ok] by blast
    have sr: "sys_read os2 (log_fd dm1) (length log_data) ?n outcome
        = (int (granted outcome ?n), ?got, os3)"
      using sr0 unfolding bytes len .
    show ?thesis
    proof (cases "granted outcome ?n = ?n")
      case True
      have "fst (ReadLog LOG_FILE_NAME w log_data size_in offset prev_log_end outcome)
              = Inr (True, take ?n (drop (nat ?abs) bs) @ drop ?n log_data)"
        unfolding unfold sr using True len c0 by simp
      with False ok True show ?thesis by (simp add: Let_def)
    next
      case short: False
      then have "int (granted outcome ?n) \<noteq> ?c" using c0 by linarith
      then have "fst (ReadLog LOG_FILE_NAME w log_data size_in offset prev_log_end outcome) = Inl UnixError"
        unfolding unfold sr by simp
      with False ok short show ?thesis by (simp add: Let_def)
    qed
  qed
qed

lemma ReadLog_in_range_example:
  "fst (open_log ''db.log'' w_example) = Inr ()
   \<and> fst (ReadLog ''db.log'' w_example [0, 0, 0, 0] 4 1 1 Complete) = Inr (True, [3, 4, 5, 0])
   \<and> fst (ReadLog ''db.log'' w_example [0, 0, 0, 0] 4 1 1 (Partial 2)) = Inl UnixError
   \<and> fst (ReadLog ''db.log'' w_example [0, 0, 0, 0] 4 3 2 Complete) = Inr (False, [0, 0, 0, 0])"
proof -
  have h: "(0::int) \<le> 4" "(4::int) < 2 ^ 31" "nat 4 \<le> length [0, 0, 0, 0 :: byte]" by simp_all
  have a: "(0::int) \<le> 1 + 1" "(1::int) + 1 < 2 ^ 31" "(0::int) \<le> 3 + 2" "(3::int) + 2 < 2 ^ 31"
    by simp_all
  have f: "int (length [1, 2, 3, 4, 5 :: byte]) < 2 ^ 31" by simp
  note t = ReadLog_in_range [OF open_log_example open_log_example_fd open_log_example_file h]
  have o: "fst (open_log ''db.log'' w_example) = Inr ()" using open_log_example by (metis fst_conv)
  from t [OF a(1,2) f, of Complete] t [OF a(1,2) f, of "Partial 2"] t [OF a(3,4) f, of Complete] o
  show ?thesis by (simp add: Let_def)
qed

text \<open>
  Claim C6, where the file size or the absolute offset does not fit an \<^verbatim>\<open>int\<close>. On a
  log file of \<open>2 ^ 31\<close> bytes \<^verbatim>\<open>GetFileSize\<close> returns \<open>- 2 ^ 31\<close>, so \<^verbatim>\<open>ReadLog\<close> at the
  absolute offset 0, which lies within the file, returns false and reads nothing. On
  the log file of five bytes, \<^verbatim>\<open>offset\<close> 2147483647 and \<^verbatim>\<open>prev_log_end\<close> 1 give the
  absolute offset \<open>2 ^ 31\<close>, beyond the end of the file; the sum computed in \<^verbatim>\<open>int\<close> is
  \<open>- 2 ^ 31\<close>, which is not at or beyond the size, and \<^verbatim>\<open>ReadLog\<close> goes on to a read that
  fails and throws \<^verbatim>\<open>UnixError\<close> where false is due. Within the range of \<^verbatim>\<open>int\<close> the call
  does what the claim says (lemma \<open>ReadLog_in_range\<close>).
\<close>

theorem ReadLog_int_overflow:
  "GetFileSize os_big_log ''db.log'' = - (2 ^ 31)
   \<and> fst (ReadLog ''db.log'' (os_big_log, DiskManager_new 8) [0, 0, 0, 0] 4 0 0 Complete)
        = Inr (False, [0, 0, 0, 0])
   \<and> as_int (2147483647 + 1) = - (2 ^ 31)
   \<and> GetFileSize os_example ''db.log'' = 5
   \<and> fst (ReadLog ''db.log'' w_example [0, 0, 0, 0] 4 2147483647 1 Complete) = Inl UnixError"
  by (simp add: ReadLog_def open_log_def open_file_def is_file_def sys_stat_def GetFileSize_def
      os_big_log_def w_example_def os_example_def DiskManager_new_def sys_open_def fd_install_def
      fd_lookup_def sys_lseek_set_def sys_read_def size_t_of_int_def as_int_def wrap_signed_def
      Let_def)

text \<open>
  Claim C2, at a short transfer. On descriptor 3, open on the empty file \<^verbatim>\<open>t.db\<close>:
  a \<^verbatim>\<open>write_page\<close> of four bytes of which the kernel transfers two returns normally,
  with only the two bytes in the file; a \<^verbatim>\<open>read_page\<close> of four bytes, of which the
  empty file delivers none, returns normally with the buffer as it was. The wrappers
  \<^verbatim>\<open>Write\<close> and \<^verbatim>\<open>Read\<close> throw on a negative return value only (lemmas
  \<open>page_io_os_failure\<close> and \<open>write_page_short_write\<close>), while \<^verbatim>\<open>ReadLog\<close> and \<^verbatim>\<open>WriteLog\<close> compare the count
  transferred with the size asked for.
\<close>

theorem page_io_short_transfer_succeeds:
  "fst (write_page 4096 os_opened 3 0 (Some [1, 2, 3, 4]) 4 (Partial 2)) = Inr ()
   \<and> file_bytes (snd (write_page 4096 os_opened 3 0 (Some [1, 2, 3, 4]) 4 (Partial 2))) ''t.db'' = [1, 2]
   \<and> fst (read_page 4096 os_opened 3 0 (Some [7, 7, 7, 7]) 4 Complete) = Inr [7, 7, 7, 7]"
  by (simp add: write_page_def read_page_def Lseek_def Write_def Read_def sys_lseek_set_def
      sys_write_def sys_read_def os_opened_def os_example_def sys_open_def fd_install_def
      fd_lookup_def file_bytes_def write_at_def size_t_of_int_def as_int_def wrap_signed_def
      Let_def)

text \<open>
  Claim C3, at two failed opens. \<^verbatim>\<open>a.db\<close> and \<^verbatim>\<open>b.db\<close> are regular files the process
  may not open read/write, so \<^verbatim>\<open>open\<close> returns \<open>-1\<close> for both. After \<^verbatim>\<open>open_file\<close> on
  each, from a fresh manager, both paths map to the handle \<open>-1\<close> and \<open>-1\<close> maps back
  to \<^verbatim>\<open>b.db\<close> alone: the two maps are no longer inverse to each other. The checked
  wrapper \<^verbatim>\<open>Open\<close> of the same file is not used by \<^verbatim>\<open>open_file\<close>. Along every sequence
  of calls in which each handle returned is a descriptor, the invariant is kept (lemma
  \<open>file_run_keeps_inv\<close>).
\<close>

theorem unchecked_open_breaks_table:
  "path2fd (snd (file_run (os_example, DiskManager_new 8) [OpenOp ''a.db'', OpenOp ''b.db''])) ''a.db'' = Some (-1)
   \<and> fd2path (snd (file_run (os_example, DiskManager_new 8) [OpenOp ''a.db'', OpenOp ''b.db''])) (-1) = Some ''b.db''
   \<and> \<not> table_inv (snd (file_run (os_example, DiskManager_new 8) [OpenOp ''a.db'', OpenOp ''b.db'']))"
proof -
  let ?dm = "snd (file_run (os_example, DiskManager_new 8) [OpenOp ''a.db'', OpenOp ''b.db''])"
  have a: "path2fd ?dm ''a.db'' = Some (-1)"
    by (simp add: file_run_def open_file_def is_file_def sys_stat_def os_example_def
        DiskManager_new_def sys_open_def)
  have b: "fd2path ?dm (-1) = Some ''b.db''"
    by (simp add: file_run_def open_file_def is_file_def sys_stat_def os_example_def
        DiskManager_new_def sys_open_def)
  have "\<not> table_inv ?dm"
  proof
    assume "table_inv ?dm"
    with a have "fd2path ?dm (-1) = Some ''a.db''" unfolding table_inv_def by blast
    with b show False by simp
  qed
  with a b show ?thesis by blast
qed

section \<open>Properties of the delete executor\<close>

subsection \<open>Indexes only lose entries\<close>

lemma ix_shrinks_refl: "ix_shrinks m m"
  by (auto simp: ix_shrinks_def split: option.splits)

lemma ix_shrinks_trans: "ix_shrinks m m1 \<Longrightarrow> ix_shrinks m1 m2 \<Longrightarrow> ix_shrinks m m2"
  unfolding ix_shrinks_def
  apply (intro allI)
  subgoal for n
    apply (erule_tac x = n in allE)+
    apply (auto split: option.splits intro: map_le_trans)
    done
  done

lemma ix_shrinks_absent:
  "ix_shrinks m m' \<Longrightarrow> m n = Some ih \<Longrightarrow> ih k = None \<Longrightarrow> \<exists>ih'. m' n = Some ih' \<and> ih' k = None"
  unfolding ix_shrinks_def
  apply (erule_tac x = n in allE)
  apply (auto split: option.splits simp: map_le_def dom_def)
  done

lemma ix_shrinks_present:
  "ix_shrinks m m' \<Longrightarrow> m' n = Some ih' \<Longrightarrow> ih' k = Some v \<Longrightarrow> \<exists>ih. m n = Some ih \<and> ih k = Some v"
  unfolding ix_shrinks_def
  apply (erule_tac x = n in allE)
  apply (auto split: option.splits simp: map_le_def dom_def)
  done

lemma ix_shrinks_handle:
  "ix_shrinks m m' \<Longrightarrow> (m' n = None) = (m n = None)"
  unfolding ix_shrinks_def
  apply (erule_tac x = n in allE)
  apply (auto split: option.splits)
  done

lemma ix_shrinks_step:
  assumes "ihs s n = Some ih" "ihs s1 = (ihs s)(n \<mapsto> ih(k := None))"
  shows "ix_shrinks (ihs s) (ihs s1)"
  unfolding assms(2) using assms(1) by (auto simp: ix_shrinks_def map_le_def split: option.splits)

lemma delete_entries_frame:
  "delete_entries gin s tn row cs i = (r, s') \<Longrightarrow>
     fh s' = fh s \<and> write_set s' = write_set s \<and> ix_shrinks (ihs s) (ihs s')"
proof (induction cs arbitrary: s i)
  case Nil
  then show ?case by (simp add: ix_shrinks_refl)
next
  case (Cons col cs)
  show ?case
  proof (cases "col_index col")
    case False
    with Cons show ?thesis by simp
  next
    case True
    show ?thesis
    proof (cases "ihs s (gin tn i)")
      case None
      with True Cons.prems show ?thesis by (simp add: ihs_at_def ix_shrinks_refl)
    next
      case (Some ih)
      show ?thesis
      proof (cases "ih (key_of col row)")
        case None
        with True Some Cons.prems show ?thesis
          by (auto simp: ihs_at_def delete_entry_def Let_def ix_shrinks_refl)
      next
        case (Some v)
        let ?s1 = "s\<lparr>calls := calls s @ [DeleteEntry (gin tn i) (key_of col row)],
                     ihs := (ihs s)(gin tn i \<mapsto> ih(key_of col row := None))\<rparr>"
        from True \<open>ihs s (gin tn i) = Some ih\<close> Some Cons.prems
        have rec: "delete_entries gin ?s1 tn row cs (Suc i) = (r, s')"
          by (simp add: ihs_at_def delete_entry_def Let_def)
        from Cons.IH [OF rec]
        have a: "fh s' = fh ?s1" and b: "write_set s' = write_set ?s1"
          and c: "ix_shrinks (ihs ?s1) (ihs s')" by blast+
        have d: "ix_shrinks (ihs s) (ihs ?s1)"
          by (rule ix_shrinks_step [OF \<open>ihs s (gin tn i) = Some ih\<close>]) simp
        from a b ix_shrinks_trans [OF d c] show ?thesis by simp
      qed
    qed
  qed
qed


lemma delete_entries_calls:
  "delete_entries gin s tn row cs i = (r, s') \<Longrightarrow>
     \<exists>evs. calls s' = calls s @ evs \<and> prefix evs (index_calls gin tn row cs i)
         \<and> (r = Inr () \<longrightarrow> evs = index_calls gin tn row cs i)"
proof (induction cs arbitrary: s i)
  case Nil
  then show ?case by simp
next
  case (Cons col cs)
  show ?case
  proof (cases "col_index col")
    case False
    with Cons show ?thesis by simp
  next
    case True
    show ?thesis
    proof (cases "ihs s (gin tn i)")
      case None
      with True Cons.prems show ?thesis by (auto simp: ihs_at_def)
    next
      case (Some ih)
      let ?ev = "DeleteEntry (gin tn i) (key_of col row)"
      show ?thesis
      proof (cases "ih (key_of col row)")
        case None
        with True Some Cons.prems have "calls s' = calls s @ [?ev]" "r = Inl KeyNotFound"
          by (auto simp: ihs_at_def delete_entry_def Let_def)
        then show ?thesis using True by (intro exI[of _ "[?ev]"]) simp
      next
        case (Some v)
        let ?s1 = "s\<lparr>calls := calls s @ [?ev],
                     ihs := (ihs s)(gin tn i \<mapsto> ih(key_of col row := None))\<rparr>"
        from True \<open>ihs s (gin tn i) = Some ih\<close> Some Cons.prems
        have rec: "delete_entries gin ?s1 tn row cs (Suc i) = (r, s')"
          by (simp add: ihs_at_def delete_entry_def Let_def)
        from Cons.IH [OF rec] obtain evs where
          e: "calls s' = calls ?s1 @ evs" "prefix evs (index_calls gin tn row cs (Suc i))"
             "r = Inr () \<longrightarrow> evs = index_calls gin tn row cs (Suc i)" by blast
        show ?thesis using e True by (intro exI[of _ "?ev # evs"]) simp
      qed
    qed
  qed
qed

text \<open>What a successful pass over the columns has done to the indexes.\<close>

lemma delete_entries_success:
  "delete_entries gin s tn row cs i = (Inr (), s') \<Longrightarrow> j < length cs \<Longrightarrow> col_index (cs ! j) \<Longrightarrow>
     (\<exists>ih v. ihs s (gin tn (i + j)) = Some ih \<and> ih (key_of (cs ! j) row) = Some v)
   \<and> (\<exists>ih'. ihs s' (gin tn (i + j)) = Some ih' \<and> ih' (key_of (cs ! j) row) = None)"
proof (induction cs arbitrary: s i j)
  case Nil
  then show ?case by simp
next
  case (Cons col cs)
  show ?case
  proof (cases "col_index col")
    case False
    with Cons.prems have rec: "delete_entries gin s tn row cs (Suc i) = (Inr (), s')" by simp
    from False Cons.prems obtain j' where j': "j = Suc j'" by (cases j) auto
    with Cons.prems have "j' < length cs" "col_index (cs ! j')" by auto
    from Cons.IH [OF rec this] show ?thesis using j' by simp
  next
    case True
    from True Cons.prems obtain ih where ih: "ihs s (gin tn i) = Some ih"
      by (cases "ihs s (gin tn i)") (auto simp: ihs_at_def)
    from True Cons.prems ih obtain v where v: "ih (key_of col row) = Some v"
      by (cases "ih (key_of col row)") (auto simp: ihs_at_def delete_entry_def Let_def)
    let ?s1 = "s\<lparr>calls := calls s @ [DeleteEntry (gin tn i) (key_of col row)],
                 ihs := (ihs s)(gin tn i \<mapsto> ih(key_of col row := None))\<rparr>"
    from True ih v Cons.prems
    have rec: "delete_entries gin ?s1 tn row cs (Suc i) = (Inr (), s')"
      by (simp add: ihs_at_def delete_entry_def Let_def)
    have sh1: "ix_shrinks (ihs s) (ihs ?s1)" by (rule ix_shrinks_step [OF ih]) simp
    have sh2: "ix_shrinks (ihs ?s1) (ihs s')" using delete_entries_frame [OF rec] by blast
    show ?thesis
    proof (cases j)
      case 0
      have "ihs ?s1 (gin tn i) = Some (ih(key_of col row := None))" by simp
      moreover have "(ih(key_of col row := None)) (key_of col row) = None" by simp
      ultimately have "\<exists>ih'. ihs s' (gin tn i) = Some ih' \<and> ih' (key_of col row) = None"
        using sh2 by (rule ix_shrinks_absent [rotated])
      then show ?thesis using 0 ih v by simp
    next
      case (Suc j')
      with Cons.prems have "j' < length cs" "col_index (cs ! j')" by auto
      from Cons.IH [OF rec this] obtain ih1 v1 ih' where
        a: "ihs ?s1 (gin tn (Suc i + j')) = Some ih1" "ih1 (key_of (cs ! j') row) = Some v1"
        and b: "ihs s' (gin tn (Suc i + j')) = Some ih'" "ih' (key_of (cs ! j') row) = None"
        by blast
      from ix_shrinks_present [OF sh1 a] b show ?thesis using Suc by auto
    qed
  qed
qed

text \<open>A missing entry makes the pass fail with KeyNotFound.\<close>

lemma delete_entries_absent:
  assumes "\<forall>j<length cs. col_index (cs ! j) \<longrightarrow> ihs s (gin tn (i + j)) \<noteq> None"
    and "j < length cs" "col_index (cs ! j)"
    and "ihs s (gin tn (i + j)) = Some ih" "ih (key_of (cs ! j) row) = None"
  shows "fst (delete_entries gin s tn row cs i) = Inl KeyNotFound"
  using assms
proof (induction cs arbitrary: s i j ih)
  case Nil
  then show ?case by simp
next
  case (Cons col cs)
  have handles: "\<forall>j<length cs. col_index (cs ! j) \<longrightarrow> ihs s (gin tn (Suc i + j)) \<noteq> None"
    using Cons.prems(1) by (auto dest: spec[of _ "Suc _"])
  show ?case
  proof (cases "col_index col")
    case False
    with Cons.prems obtain j' where j': "j = Suc j'" by (cases j) auto
    with Cons.prems have *: "j' < length cs" "col_index (cs ! j')"
      "ihs s (gin tn (Suc i + j')) = Some ih" "ih (key_of (cs ! j') row) = None" by auto
    from Cons.IH [OF handles *] False show ?thesis by simp
  next
    case True
    from True Cons.prems(1) obtain ih0 where ih0: "ihs s (gin tn i) = Some ih0"
      by (cases "ihs s (gin tn i)") (auto dest: spec[of _ 0])
    show ?thesis
    proof (cases "ih0 (key_of col row)")
      case None
      with True ih0 show ?thesis by (simp add: ihs_at_def delete_entry_def Let_def)
    next
      case (Some v)
      let ?s1 = "s\<lparr>calls := calls s @ [DeleteEntry (gin tn i) (key_of col row)],
                   ihs := (ihs s)(gin tn i \<mapsto> ih0(key_of col row := None))\<rparr>"
      have step: "delete_entries gin s tn row (col # cs) i = delete_entries gin ?s1 tn row cs (Suc i)"
        using True ih0 Some by (simp add: ihs_at_def delete_entry_def Let_def)
      have sh1: "ix_shrinks (ihs s) (ihs ?s1)" by (rule ix_shrinks_step [OF ih0]) simp
      from Some Cons.prems ih0 obtain j' where j': "j = Suc j'" by (cases j) auto
      with Cons.prems have *: "j' < length cs" "col_index (cs ! j')" by auto
      from Cons.prems j' have "ihs s (gin tn (Suc i + j')) = Some ih" "ih (key_of (cs ! j') row) = None"
        by auto
      from ix_shrinks_absent [OF sh1 this] obtain ih1 where
        **: "ihs ?s1 (gin tn (Suc i + j')) = Some ih1" "ih1 (key_of (cs ! j') row) = None" by blast
      have handles1: "\<forall>j<length cs. col_index (cs ! j) \<longrightarrow> ihs ?s1 (gin tn (Suc i + j)) \<noteq> None"
        using handles ix_shrinks_handle [OF sh1] by blast
      from Cons.IH [OF handles1 * **] show ?thesis unfolding step .
    qed
  qed
qed

subsection \<open>One row identifier, then all of them\<close>

lemma delete_rid_None:
  "fh s rid = None \<Longrightarrow>
   delete_rid gin ex s rid = (Inl RecordNotFound, s\<lparr>calls := calls s @ [GetRecord rid]\<rparr>)"
  by (simp add: delete_rid_def get_record_def)

lemma delete_rid_Some:
  assumes row: "fh s rid = Some row" and res: "delete_rid gin ex s rid = (r, s')"
  shows "\<exists>evs. calls s' = calls s @ evs \<and> prefix evs (rid_calls gin ex rid row)
           \<and> (r = Inr () \<longrightarrow> evs = rid_calls gin ex rid row)"
    and "ix_shrinks (ihs s) (ihs s')"
    and "r = Inr () \<Longrightarrow> fh s' = (fh s)(rid := None)"
    and "r = Inr () \<Longrightarrow>
           write_set s' = write_set s @ [WriteRecord DELETE_TUPLE (tab_name ex) rid row]"
    and "r = Inr () \<Longrightarrow> i < length (cols (tab ex)) \<Longrightarrow> col_index (cols (tab ex) ! i) \<Longrightarrow>
           (\<exists>ih v. ihs s (gin (tab_name ex) i) = Some ih \<and> ih (key_of (cols (tab ex) ! i) row) = Some v)
         \<and> (\<exists>ih'. ihs s' (gin (tab_name ex) i) = Some ih' \<and> ih' (key_of (cols (tab ex) ! i) row) = None)"
    and "r \<noteq> Inr () \<Longrightarrow> r = fst (delete_entries gin (s\<lparr>calls := calls s @ [GetRecord rid]\<rparr>)
                                   (tab_name ex) row (cols (tab ex)) 0)"
proof -
  let ?s1 = "s\<lparr>calls := calls s @ [GetRecord rid]\<rparr>"
  let ?wr = "WriteRecord DELETE_TUPLE (tab_name ex) rid row"
  obtain r2 s2 where de: "delete_entries gin ?s1 (tab_name ex) row (cols (tab ex)) 0 = (r2, s2)"
    by (cases "delete_entries gin ?s1 (tab_name ex) row (cols (tab ex)) 0")
  from delete_entries_frame [OF de]
  have fr: "fh s2 = fh s" "write_set s2 = write_set s" and sh1: "ix_shrinks (ihs ?s1) (ihs s2)"
    by simp_all
  have "ihs ?s1 = ihs s" by simp
  with sh1 have sh: "ix_shrinks (ihs s) (ihs s2)" by metis
  from delete_entries_calls [OF de] obtain evs where
    ev: "calls s2 = calls s @ GetRecord rid # evs"
        "prefix evs (index_calls gin (tab_name ex) row (cols (tab ex)) 0)"
        "r2 = Inr () \<longrightarrow> evs = index_calls gin (tab_name ex) row (cols (tab ex)) 0"
    by auto
  let ?s3 = "s2\<lparr>calls := calls s2 @ [DeleteRecord rid], fh := (fh s2)(rid := None)\<rparr>"
  have out: "(r, s') = (case r2 of Inl e \<Rightarrow> (Inl e, s2)
                        | Inr u \<Rightarrow> (Inr (), append_write_record ?s3 ?wr))"
    using res row fr(1)
    by (cases r2) (auto simp: delete_rid_def get_record_def de delete_record_def Let_def)
  show "\<exists>evs. calls s' = calls s @ evs \<and> prefix evs (rid_calls gin ex rid row)
           \<and> (r = Inr () \<longrightarrow> evs = rid_calls gin ex rid row)"
  proof (cases r2)
    case (Inl e)
    with out ev show ?thesis
      by (intro exI[of _ "GetRecord rid # evs"]) (auto simp: rid_calls_def)
  next
    case (Inr u)
    with out ev show ?thesis
      by (intro exI[of _ "rid_calls gin ex rid row"])
         (auto simp: rid_calls_def append_write_record_def)
  qed
  show "ix_shrinks (ihs s) (ihs s')"
    using out sh by (cases r2) (auto simp: append_write_record_def)
  show "fh s' = (fh s)(rid := None)" if "r = Inr ()"
    using out that fr by (cases r2) (auto simp: append_write_record_def)
  show "write_set s' = write_set s @ [?wr]" if "r = Inr ()"
    using out that fr by (cases r2) (auto simp: append_write_record_def)
  show "(\<exists>ih v. ihs s (gin (tab_name ex) i) = Some ih \<and> ih (key_of (cols (tab ex) ! i) row) = Some v)
         \<and> (\<exists>ih'. ihs s' (gin (tab_name ex) i) = Some ih' \<and> ih' (key_of (cols (tab ex) ! i) row) = None)"
    if "r = Inr ()" "i < length (cols (tab ex))" "col_index (cols (tab ex) ! i)"
  proof -
    from out that(1) have r2: "r2 = Inr ()" and s': "ihs s' = ihs s2"
      by (cases r2; auto simp: append_write_record_def)+
    from delete_entries_success [OF de [unfolded r2] that(2,3)] show ?thesis
      by (simp add: s')
  qed
  show "r = fst (delete_entries gin ?s1 (tab_name ex) row (cols (tab ex)) 0)" if "r \<noteq> Inr ()"
    using out that by (cases r2) (auto simp: de)
qed



lemma delete_rids_success:
  assumes "delete_rids gin ex s rs = (Inr (), s')"
  shows "write_set s' = write_set s
           @ map (\<lambda>rid. WriteRecord DELETE_TUPLE (tab_name ex) rid (the (fh s rid))) rs
       \<and> set rs \<subseteq> dom (fh s) \<and> distinct rs
       \<and> (\<forall>rid. fh s' rid = (if rid \<in> set rs then None else fh s rid))
       \<and> ix_shrinks (ihs s) (ihs s')
       \<and> (\<forall>rid\<in>set rs. \<forall>i<length (cols (tab ex)). col_index (cols (tab ex) ! i) \<longrightarrow>
            (\<exists>ih v. ihs s (gin (tab_name ex) i) = Some ih
                   \<and> ih (key_of (cols (tab ex) ! i) (the (fh s rid))) = Some v)
          \<and> (\<exists>ih'. ihs s' (gin (tab_name ex) i) = Some ih'
                   \<and> ih' (key_of (cols (tab ex) ! i) (the (fh s rid))) = None))"
  using assms
proof (induction rs arbitrary: s)
  case Nil
  then show ?case by (simp add: ix_shrinks_refl)
next
  case (Cons rid rs)
  obtain r1 s1 where d1: "delete_rid gin ex s rid = (r1, s1)"
    by (cases "delete_rid gin ex s rid")
  from Cons.prems d1 have ok: "r1 = Inr ()" and rest: "delete_rids gin ex s1 rs = (Inr (), s')"
    by (cases r1; simp)+
  from d1 ok obtain row where row: "fh s rid = Some row"
    by (cases "fh s rid") (auto simp: delete_rid_None)
  note step = delete_rid_Some [OF row d1]
  have fh1: "fh s1 = (fh s)(rid := None)" using step(3) [OF ok] .
  have ws1: "write_set s1 = write_set s @ [WriteRecord DELETE_TUPLE (tab_name ex) rid row]"
    using step(4) [OF ok] .
  note ih = Cons.IH [OF rest]
  from ih have sub: "set rs \<subseteq> dom (fh s1)" and dist: "distinct rs" by blast+
  have notin: "rid \<notin> set rs" using sub fh1 by auto
  have same: "\<And>q. q \<in> set rs \<Longrightarrow> fh s1 q = fh s q" using notin fh1 by auto
  have sh: "ix_shrinks (ihs s) (ihs s')"
    using ix_shrinks_trans [OF step(2)] ih by blast
  have c1: "write_set s' = write_set s
           @ map (\<lambda>rid. WriteRecord DELETE_TUPLE (tab_name ex) rid (the (fh s rid))) (rid # rs)"
    using ih ws1 row same by simp
  have c2: "set (rid # rs) \<subseteq> dom (fh s)" using sub fh1 row by (auto split: if_splits)
  have c3: "distinct (rid # rs)" using dist notin by simp
  have c4: "\<forall>q. fh s' q = (if q \<in> set (rid # rs) then None else fh s q)"
    using ih fh1 by auto
  have c5: "\<forall>q\<in>set (rid # rs). \<forall>i<length (cols (tab ex)). col_index (cols (tab ex) ! i) \<longrightarrow>
            (\<exists>ih v. ihs s (gin (tab_name ex) i) = Some ih
                   \<and> ih (key_of (cols (tab ex) ! i) (the (fh s q))) = Some v)
          \<and> (\<exists>ih'. ihs s' (gin (tab_name ex) i) = Some ih'
                   \<and> ih' (key_of (cols (tab ex) ! i) (the (fh s q))) = None)"
  proof (intro ballI allI impI)
    fix q i
    assume q: "q \<in> set (rid # rs)" and i: "i < length (cols (tab ex))" "col_index (cols (tab ex) ! i)"
    let ?k = "key_of (cols (tab ex) ! i) (the (fh s q))"
    show "(\<exists>ih v. ihs s (gin (tab_name ex) i) = Some ih \<and> ih ?k = Some v)
          \<and> (\<exists>ih'. ihs s' (gin (tab_name ex) i) = Some ih' \<and> ih' ?k = None)"
    proof (cases "q = rid")
      case True
      from step(5) [OF ok i] obtain ih0 v ih1 where
        a: "ihs s (gin (tab_name ex) i) = Some ih0" "ih0 (key_of (cols (tab ex) ! i) row) = Some v"
        and b: "ihs s1 (gin (tab_name ex) i) = Some ih1" "ih1 (key_of (cols (tab ex) ! i) row) = None"
        by blast
      have sh2: "ix_shrinks (ihs s1) (ihs s')" using ih by blast
      from ix_shrinks_absent [OF sh2 b] a True row show ?thesis by simp
    next
      case False
      with q have qin: "q \<in> set rs" by simp
      from ih qin i obtain ih1 v ih' where
        a: "ihs s1 (gin (tab_name ex) i) = Some ih1"
           "ih1 (key_of (cols (tab ex) ! i) (the (fh s1 q))) = Some v"
        and b: "ihs s' (gin (tab_name ex) i) = Some ih'"
           "ih' (key_of (cols (tab ex) ! i) (the (fh s1 q))) = None"
        by blast
      from ix_shrinks_present [OF step(2) a] b same [OF qin] show ?thesis by auto
    qed
  qed
  from c1 c2 c3 c4 sh c5 show ?case by blast
qed

lemma delete_entries_errors:
  assumes "\<forall>j<length cs. col_index (cs ! j) \<longrightarrow> ihs s (gin tn (i + j)) \<noteq> None"
  shows "fst (delete_entries gin s tn row cs i) = Inr ()
       \<or> fst (delete_entries gin s tn row cs i) = Inl KeyNotFound"
  using assms
proof (induction cs arbitrary: s i)
  case Nil
  then show ?case by simp
next
  case (Cons col cs)
  have handles: "\<forall>j<length cs. col_index (cs ! j) \<longrightarrow> ihs s (gin tn (Suc i + j)) \<noteq> None"
    using Cons.prems by (auto dest: spec[of _ "Suc _"])
  show ?case
  proof (cases "col_index col")
    case False
    with Cons.IH [OF handles] show ?thesis by simp
  next
    case True
    from True Cons.prems obtain ih0 where ih0: "ihs s (gin tn i) = Some ih0"
      by (cases "ihs s (gin tn i)") (auto dest: spec[of _ 0])
    show ?thesis
    proof (cases "ih0 (key_of col row)")
      case None
      with True ih0 show ?thesis by (simp add: ihs_at_def delete_entry_def Let_def)
    next
      case (Some v)
      let ?s1 = "s\<lparr>calls := calls s @ [DeleteEntry (gin tn i) (key_of col row)],
                   ihs := (ihs s)(gin tn i \<mapsto> ih0(key_of col row := None))\<rparr>"
      have step: "delete_entries gin s tn row (col # cs) i = delete_entries gin ?s1 tn row cs (Suc i)"
        using True ih0 Some by (simp add: ihs_at_def delete_entry_def Let_def)
      have sh1: "ix_shrinks (ihs s) (ihs ?s1)" by (rule ix_shrinks_step [OF ih0]) simp
      have handles1: "\<forall>j<length cs. col_index (cs ! j) \<longrightarrow> ihs ?s1 (gin tn (Suc i + j)) \<noteq> None"
        using handles ix_shrinks_handle [OF sh1] by blast
      from Cons.IH [OF handles1] show ?thesis unfolding step .
    qed
  qed
qed

lemma delete_rids_errors:
  assumes "distinct rs" "set rs \<subseteq> dom (fh s)"
    and "\<forall>i<length (cols (tab ex)). col_index (cols (tab ex) ! i) \<longrightarrow> ihs s (gin (tab_name ex) i) \<noteq> None"
  shows "fst (delete_rids gin ex s rs) = Inr () \<or> fst (delete_rids gin ex s rs) = Inl KeyNotFound"
  using assms
proof (induction rs arbitrary: s)
  case Nil
  then show ?case by simp
next
  case (Cons rid rs)
  from Cons.prems obtain row where row: "fh s rid = Some row" by auto
  obtain r1 s1 where d1: "delete_rid gin ex s rid = (r1, s1)"
    by (cases "delete_rid gin ex s rid")
  note step = delete_rid_Some [OF row d1]
  show ?case
  proof (cases "r1 = Inr ()")
    case False
    let ?s0 = "s\<lparr>calls := calls s @ [GetRecord rid]\<rparr>"
    have h0: "\<forall>j<length (cols (tab ex)). col_index (cols (tab ex) ! j) \<longrightarrow>
            ihs ?s0 (gin (tab_name ex) (0 + j)) \<noteq> None"
      using Cons.prems(3) by simp
    have "fst (delete_entries gin ?s0 (tab_name ex) row (cols (tab ex)) 0) = Inr ()
       \<or> fst (delete_entries gin ?s0 (tab_name ex) row (cols (tab ex)) 0) = Inl KeyNotFound"
      using h0 by (rule delete_entries_errors [where gin = gin and s = ?s0 and tn = "tab_name ex"
            and cs = "cols (tab ex)" and i = 0 and row = row])
    with step(6) [OF False] False
    have "r1 = Inl KeyNotFound" by auto
    then show ?thesis by (simp add: d1)
  next
    case True
    have fh1: "fh s1 = (fh s)(rid := None)" using step(3) [OF True] .
    have a: "distinct rs" and b: "set rs \<subseteq> dom (fh s1)"
      using Cons.prems(1,2) fh1 by auto
    have c: "\<forall>i<length (cols (tab ex)). col_index (cols (tab ex) ! i) \<longrightarrow>
               ihs s1 (gin (tab_name ex) i) \<noteq> None"
      using Cons.prems(3) ix_shrinks_handle [OF step(2)] by blast
    from Cons.IH [OF a b c] True show ?thesis by (simp add: d1)
  qed
qed

lemma collect_handles_iff:
  "collect_handles gin s tn cs i
     = (if \<forall>j<length cs. col_index (cs ! j) \<longrightarrow> ihs s (gin tn (i + j)) \<noteq> None
        then Inr () else Inl IndexNotFound)"
proof (induction cs arbitrary: i)
  case Nil
  then show ?case by simp
next
  case (Cons col cs)
  have split: "(\<forall>j<length (col # cs). col_index ((col # cs) ! j) \<longrightarrow> ihs s (gin tn (i + j)) \<noteq> None)
      = ((col_index col \<longrightarrow> ihs s (gin tn i) \<noteq> None)
         \<and> (\<forall>j<length cs. col_index (cs ! j) \<longrightarrow> ihs s (gin tn (Suc i + j)) \<noteq> None))"
    by (auto simp: less_Suc_eq_0_disj)
  show ?case
    unfolding split by (auto simp: Cons.IH ihs_at_def split: option.splits)
qed

lemma Next_cases:
  "Next gin ex s
     = (if has_handles gin ex s then delete_rids gin ex s (rids ex) else (Inl IndexNotFound, s))"
proof -
  have "collect_handles gin s (tab_name ex) (cols (tab ex)) 0
          = (if has_handles gin ex s then Inr () else Inl IndexNotFound)"
    unfolding has_handles_def collect_handles_iff by simp
  then show ?thesis by (simp add: Next_def)
qed

subsection \<open>The example run\<close>

lemmas exec_eval = Next_def delete_rid_def get_record_def delete_record_def
  append_write_record_def ihs_at_def delete_entry_def key_of_def example_index_name_def
  ex_example_def Let_def

lemma Next_example: "fst (Next example_index_name ex_example s_example) = Inr ()"
  by (simp add: exec_eval s_example_def)

lemma Next_example_ws: "write_set (snd (Next example_index_name ex_example s_example)) =
   [WriteRecord DELETE_TUPLE ''T'' (Rid 1 0) [5, 120, 0], WriteRecord DELETE_TUPLE ''T'' (Rid 1 1) [6, 121, 0]]"
  by (simp add: exec_eval s_example_def)

lemma Next_example_calls: "calls (snd (Next example_index_name ex_example s_example)) =
   [GetRecord (Rid 1 0), DeleteEntry ''T_.idx'' [5], DeleteRecord (Rid 1 0),
    AppendWriteRecord (WriteRecord DELETE_TUPLE ''T'' (Rid 1 0) [5, 120, 0]),
    GetRecord (Rid 1 1), DeleteEntry ''T_.idx'' [6], DeleteRecord (Rid 1 1),
    AppendWriteRecord (WriteRecord DELETE_TUPLE ''T'' (Rid 1 1) [6, 121, 0])]"
  by (simp add: exec_eval s_example_def)

subsection \<open>Claims about the delete executor\<close>



text \<open>
  Claim C4. After a successful \<^verbatim>\<open>Next\<close> on \<open>N\<close> row identifiers the transaction's
  write-record list is the old list followed by \<open>N\<close> records, the \<open>i\<close>-th being
  \<open>DELETE_TUPLE\<close> with the table name, the \<open>i\<close>-th row identifier and the bytes the
  record file held for it before the run.
\<close>

theorem Next_write_records:
  assumes "Next gin ex s = (Inr (), s')"
  shows "write_set s' = write_set s
           @ map (\<lambda>rid. WriteRecord DELETE_TUPLE (tab_name ex) rid (the (fh s rid))) (rids ex)
       \<and> length (write_set s') = length (write_set s) + length (rids ex)
       \<and> set (rids ex) \<subseteq> dom (fh s)"
proof -
  from assms have "delete_rids gin ex s (rids ex) = (Inr (), s')"
    by (simp add: Next_cases split: if_splits)
  from delete_rids_success [OF this] show ?thesis by simp
qed

theorem Next_write_records_witness:
  "fst (Next example_index_name ex_example s_example) = Inr ()
   \<and> write_set (snd (Next example_index_name ex_example s_example))
       = write_set s_example
         @ [WriteRecord DELETE_TUPLE ''T'' (Rid 1 0) [5, 120, 0],
            WriteRecord DELETE_TUPLE ''T'' (Rid 1 1) [6, 121, 0]]
   \<and> length (write_set (snd (Next example_index_name ex_example s_example)))
       = length (write_set s_example) + 2"
proof -
  have run: "Next example_index_name ex_example s_example
      = (Inr (), snd (Next example_index_name ex_example s_example))"
    using Next_example by (metis prod.collapse)
  from Next_write_records [OF run] Next_example show ?thesis
    by (simp add: ex_example_def s_example_def)
qed

text \<open>
  Claim C1 as stated fails where index and heap are out of step. The row at
  \<open>Rid 1 1\<close> has key 5 in the indexed column, and the index holds no entry pairing key
  5 with \<open>Rid 1 1\<close>, only one pairing it with \<open>Rid 1 0\<close>. \<^verbatim>\<open>Next\<close> on \<open>Rid 1 1\<close> does not
  fail with KeyNotFound: it succeeds and removes the entry of \<open>Rid 1 0\<close>. The call
  \<^verbatim>\<open>ih->delete_entry(rec->data + col.offset, context_->txn_)\<close> carries no Rid.
\<close>

theorem Next_deletes_by_key_only:
  "ihs s_diverged (example_index_name ''T'' 0) = Some ix_diverged
   \<and> ix_diverged [5] = Some (Rid 1 0)
   \<and> fh s_diverged (Rid 1 1) = Some [5, 121, 0]
   \<and> key_of (cols (tab ex_example) ! 0) [5, 121, 0] = [5]
   \<and> fst (Next example_index_name (ex_example\<lparr>rids := [Rid 1 1]\<rparr>) s_diverged) = Inr ()
   \<and> ihs (snd (Next example_index_name (ex_example\<lparr>rids := [Rid 1 1]\<rparr>) s_diverged))
        (example_index_name ''T'' 0) = Some (ix_diverged([5] := None))"
  by (simp add: exec_eval s_diverged_def ix_diverged_def)

text \<open>
  Claim C1, amended. For every row identifier of a successful \<^verbatim>\<open>Next\<close> and every
  indexed column, the column's index held an entry under the column's byte range of
  the fetched row, and holds none afterwards, whichever Rid that entry was paired
  with. When the row identifiers are distinct and all resolve, every indexed column
  has an index handle, and for some row identifier an indexed column's index holds no
  entry under the row's key, \<^verbatim>\<open>Next\<close> fails with KeyNotFound.
\<close>

theorem Next_index_entries:
  assumes "Next gin ex s = (r, s')"
  shows "(r = Inr () \<longrightarrow>
           (\<forall>rid\<in>set (rids ex). \<forall>i<length (cols (tab ex)). col_index (cols (tab ex) ! i) \<longrightarrow>
              (\<exists>ih v. ihs s (gin (tab_name ex) i) = Some ih
                     \<and> ih (key_of (cols (tab ex) ! i) (the (fh s rid))) = Some v)
            \<and> (\<exists>ih'. ihs s' (gin (tab_name ex) i) = Some ih'
                     \<and> ih' (key_of (cols (tab ex) ! i) (the (fh s rid))) = None)))
       \<and> (distinct (rids ex) \<and> set (rids ex) \<subseteq> dom (fh s)
          \<and> has_handles gin ex s
          \<and> (\<exists>rid\<in>set (rids ex). \<exists>i<length (cols (tab ex)). col_index (cols (tab ex) ! i)
                \<and> (\<exists>ih. ihs s (gin (tab_name ex) i) = Some ih
                       \<and> ih (key_of (cols (tab ex) ! i) (the (fh s rid))) = None))
          \<longrightarrow> r = Inl KeyNotFound)"
proof (intro conjI impI)
  assume ok: "r = Inr ()"
  with assms have "delete_rids gin ex s (rids ex) = (Inr (), s')"
    by (simp add: Next_cases split: if_splits)
  from delete_rids_success [OF this]
  show "\<forall>rid\<in>set (rids ex). \<forall>i<length (cols (tab ex)). col_index (cols (tab ex) ! i) \<longrightarrow>
              (\<exists>ih v. ihs s (gin (tab_name ex) i) = Some ih
                     \<and> ih (key_of (cols (tab ex) ! i) (the (fh s rid))) = Some v)
            \<and> (\<exists>ih'. ihs s' (gin (tab_name ex) i) = Some ih'
                     \<and> ih' (key_of (cols (tab ex) ! i) (the (fh s rid))) = None)"
    by blast
next
  assume a: "distinct (rids ex) \<and> set (rids ex) \<subseteq> dom (fh s)
          \<and> has_handles gin ex s
          \<and> (\<exists>rid\<in>set (rids ex). \<exists>i<length (cols (tab ex)). col_index (cols (tab ex) ! i)
                \<and> (\<exists>ih. ihs s (gin (tab_name ex) i) = Some ih
                       \<and> ih (key_of (cols (tab ex) ! i) (the (fh s rid))) = None))"
  then have run: "delete_rids gin ex s (rids ex) = (r, s')"
    using assms by (simp add: Next_cases)
  from a delete_rids_errors [of "rids ex" s ex gin] run
  have alt: "r = Inr () \<or> r = Inl KeyNotFound" by (auto simp: has_handles_def)
  have "r \<noteq> Inr ()"
  proof
    assume "r = Inr ()"
    with run have "delete_rids gin ex s (rids ex) = (Inr (), s')" by simp
    from delete_rids_success [OF this] a show False by fastforce
  qed
  with alt show "r = Inl KeyNotFound" by simp
qed

theorem Next_index_entries_witness:
  "fst (Next example_index_name ex_example s_example) = Inr ()
   \<and> ihs (snd (Next example_index_name ex_example s_example)) ''T_.idx'' = Some Map.empty
   \<and> fst (Next example_index_name ex_example s_missing) = Inl KeyNotFound"
proof -
  have run: "Next example_index_name ex_example s_example
      = (Inr (), snd (Next example_index_name ex_example s_example))"
    using Next_example by (metis prod.collapse)
  have run2: "Next example_index_name ex_example s_missing
      = (fst (Next example_index_name ex_example s_missing),
         snd (Next example_index_name ex_example s_missing))"
    by simp
  have after: "ihs (snd (Next example_index_name ex_example s_example)) ''T_.idx'' = Some Map.empty"
    by (simp add: exec_eval s_example_def)
  have pre: "distinct (rids ex_example) \<and> set (rids ex_example) \<subseteq> dom (fh s_missing)
          \<and> has_handles example_index_name ex_example s_missing
          \<and> (\<exists>rid\<in>set (rids ex_example). \<exists>i<length (cols (tab ex_example)).
                col_index (cols (tab ex_example) ! i)
                \<and> (\<exists>ih. ihs s_missing (example_index_name (tab_name ex_example) i) = Some ih
                       \<and> ih (key_of (cols (tab ex_example) ! i) (the (fh s_missing rid))) = None))"
    by (simp add: ex_example_def s_missing_def example_index_name_def key_of_def less_Suc_eq
        has_handles_def)
  from Next_index_entries [OF run] Next_index_entries [OF run2] pre Next_example after
  show ?thesis by blast
qed

end
